theory Spec2Isabelle
  imports Complex_Main "HOL-Library.Word"
begin

unbundle bit_operations_syntax

section \<open>Data model of \<^verbatim>\<open>shs01.c\<close>\<close>

text \<open>
  The firmware keeps its configuration, its published presence flags and the movement
  cooldown in file-scope \<^verbatim>\<open>static\<close> variables. They become one record that every
  function takes and returns. The C types are kept: \<^verbatim>\<open>uint8_t\<close>, \<^verbatim>\<open>uint16_t\<close> and
  \<^verbatim>\<open>uint32_t\<close> are words of that width, \<^verbatim>\<open>bool\<close> is \<open>bool\<close>.

  Calls into the platform are made explicit as follows.
  \<^item> \<^verbatim>\<open>esp_log_timestamp()\<close> (milliseconds since boot, \<^verbatim>\<open>uint32_t\<close>) is an argument
    \<open>now\<close> of the function that reads it.
  \<^item> \<^verbatim>\<open>esp_zb_zcl_set_attribute_val\<close> appends to the log \<open>zb_attrs\<close>.
  \<^item> \<^verbatim>\<open>uart_write_bytes\<close> appends to \<open>uart_tx\<close>.
  \<^item> \<^verbatim>\<open>xQueueSend\<close> with a zero timeout appends to the queue \<open>shs_save_q\<close> unless it
    already holds its eight messages.
  \<^item> \<^verbatim>\<open>ESP_LOGI\<close> has no effect on the state and is left out.
\<close>

type_synonym byte = "8 word"

datatype shs_save_evt_t =
    SHS_SAVE_IMMEDIATE_U16
  | SHS_SAVE_DEBOUNCE_SENS_MOVE
  | SHS_SAVE_DEBOUNCE_SENS_STATIC
  | SHS_SAVE_DEBOUNCE_GATE_MOVE
  | SHS_SAVE_DEBOUNCE_GATE_STATIC

record shs_save_msg_t =
  msg_type :: shs_save_evt_t
  msg_u16 :: "16 word"

datatype zcl_value =
    is_ZclBool: ZclBool (zcl_bool: bool)
  | is_ZclU8: ZclU8 (zcl_u8: byte)
  | is_ZclU16: ZclU16 (zcl_u16: "16 word")
  | ZclOther

record zb_attr_write =
  zw_endpoint :: byte
  zw_cluster :: "16 word"
  zw_attr :: "16 word"
  zw_value :: zcl_value

record shs_globals =
  shs_movement_cooldown_sec :: "16 word"
  shs_occupancy_clear_sec :: "16 word"
  shs_moving_sens_0_100 :: byte
  shs_static_sens_0_100 :: byte
  shs_moving_max_gate :: "16 word"
  shs_static_max_gate :: "16 word"
  shs_sens_mv_0_10 :: "16 word"
  shs_sens_st_0_10 :: "16 word"
  shs_moving_state :: bool
  shs_static_state :: bool
  shs_occupancy_state :: bool
  shs_mv_cooldown_active :: bool
  shs_mv_cooldown_deadline_ms :: "32 word"
  shs_last_moving_sample :: bool
  shs_zb_ready :: bool
  shs_save_q :: "shs_save_msg_t list option"
  zb_attrs :: "zb_attr_write list"
  uart_tx :: "byte list"
  light_power :: bool

text \<open>The initialisers of the static variables; the queue handle is null until
  \<^verbatim>\<open>app_main\<close> creates the queue.\<close>

definition shs_init :: shs_globals where
  "shs_init = \<lparr>
     shs_movement_cooldown_sec = 0,
     shs_occupancy_clear_sec = 0,
     shs_moving_sens_0_100 = 60,
     shs_static_sens_0_100 = 50,
     shs_moving_max_gate = 8,
     shs_static_max_gate = 8,
     shs_sens_mv_0_10 = 6,
     shs_sens_st_0_10 = 5,
     shs_moving_state = False,
     shs_static_state = False,
     shs_occupancy_state = False,
     shs_mv_cooldown_active = False,
     shs_mv_cooldown_deadline_ms = 0,
     shs_last_moving_sample = False,
     shs_zb_ready = False,
     shs_save_q = None,
     zb_attrs = [],
     uart_tx = [],
     light_power = False \<rparr>"

subsection \<open>Constants of \<^verbatim>\<open>shs01.h\<close>\<close>

definition SHS_EP_LIGHT :: byte where "SHS_EP_LIGHT = 1"
definition SHS_EP_OCC :: byte where "SHS_EP_OCC = 2"
definition SHS_CL_CFG_ID :: "16 word" where "SHS_CL_CFG_ID = 0xFDCD"
definition SHS_ATTR_MOVEMENT_COOLDOWN :: "16 word" where "SHS_ATTR_MOVEMENT_COOLDOWN = 0x0001"
definition SHS_ATTR_OCC_CLEAR_COOLDOWN :: "16 word" where "SHS_ATTR_OCC_CLEAR_COOLDOWN = 0x0002"
definition SHS_ATTR_MOVING_SENS_0_10 :: "16 word" where "SHS_ATTR_MOVING_SENS_0_10 = 0x0003"
definition SHS_ATTR_STATIC_SENS_0_10 :: "16 word" where "SHS_ATTR_STATIC_SENS_0_10 = 0x0004"
definition SHS_ATTR_MOVING_MAX_GATE :: "16 word" where "SHS_ATTR_MOVING_MAX_GATE = 0x0005"
definition SHS_ATTR_STATIC_MAX_GATE :: "16 word" where "SHS_ATTR_STATIC_MAX_GATE = 0x0006"
definition SHS_ATTR_OCC_MOVING_TARGET :: "16 word" where "SHS_ATTR_OCC_MOVING_TARGET = 0xF001"
definition SHS_ATTR_OCC_STATIC_TARGET :: "16 word" where "SHS_ATTR_OCC_STATIC_TARGET = 0xF002"
definition SHS_ZCL_ATTR_OCC_PIR_OU_DELAY :: "16 word" where "SHS_ZCL_ATTR_OCC_PIR_OU_DELAY = 0x0010"
definition SHS_COOLDOWN_MAX_SEC :: "16 word" where "SHS_COOLDOWN_MAX_SEC = 300"
definition SHS_UART_BUF_SIZE :: nat where "SHS_UART_BUF_SIZE = 512"
definition SHS_UART_ACC_BUF_SIZE :: nat where "SHS_UART_ACC_BUF_SIZE = 1024"
definition SHS_LD2410_MIN_FRAME_BYTES :: nat where "SHS_LD2410_MIN_FRAME_BYTES = 9"
definition SHS_NVS_DEBOUNCE_MS :: "32 word" where "SHS_NVS_DEBOUNCE_MS = 500"

text \<open>Identifiers of the Zigbee cluster library that the SDK headers declare (the
  headers are not part of the repository). The source's own comments give the occupancy
  sensing cluster as \<^verbatim>\<open>0x0406\<close> and its occupancy attribute as \<^verbatim>\<open>0x0000\<close>; the on/off
  cluster \<^verbatim>\<open>0x0006\<close> and its attribute \<^verbatim>\<open>0x0000\<close> are the standard values.\<close>

definition ESP_ZB_ZCL_CLUSTER_ID_ON_OFF :: "16 word" where
  "ESP_ZB_ZCL_CLUSTER_ID_ON_OFF = 0x0006"
definition ESP_ZB_ZCL_ATTR_ON_OFF_ON_OFF_ID :: "16 word" where
  "ESP_ZB_ZCL_ATTR_ON_OFF_ON_OFF_ID = 0x0000"
definition ESP_ZB_ZCL_CLUSTER_ID_OCCUPANCY_SENSING :: "16 word" where
  "ESP_ZB_ZCL_CLUSTER_ID_OCCUPANCY_SENSING = 0x0406"
definition ESP_ZB_ZCL_ATTR_OCCUPANCY_SENSING_OCCUPANCY_ID :: "16 word" where
  "ESP_ZB_ZCL_ATTR_OCCUPANCY_SENSING_OCCUPANCY_ID = 0x0000"

section \<open>Helpers\<close>

text \<open>\<^verbatim>\<open>return (int32_t)(now - deadline) >= 0;\<close> The subtraction is unsigned 32-bit and
  wraps; the cast reads the difference as two's complement.\<close>

definition shs_time_reached :: "32 word \<Rightarrow> 32 word \<Rightarrow> bool" where
  "shs_time_reached now deadline = (0 \<le> sint (now - deadline))"

definition shs_save_enqueue :: "shs_save_evt_t \<Rightarrow> 16 word \<Rightarrow> shs_globals \<Rightarrow> shs_globals" where
  "shs_save_enqueue t v g =
     (case shs_save_q g of
        None \<Rightarrow> g
      | Some q \<Rightarrow>
          (if length q < 8
           then g\<lparr>shs_save_q := Some (q @ [\<lparr>msg_type = t, msg_u16 = v\<rparr>])\<rparr>
           else g))"

text \<open>The proxies are computed in \<^verbatim>\<open>int\<close> (the \<^verbatim>\<open>uint8_t\<close> operand is promoted), so
  \<^verbatim>\<open>+ 5\<close> cannot wrap.\<close>

definition shs_cfg_sync_sens_proxies :: "shs_globals \<Rightarrow> shs_globals" where
  "shs_cfg_sync_sens_proxies g =
     (let mv = (word_of_nat ((unat (shs_moving_sens_0_100 g) + 5) div 10) :: 16 word);
          g1 = g\<lparr>shs_sens_mv_0_10 := (if 10 < mv then 10 else mv)\<rparr>;
          st = (word_of_nat ((unat (shs_static_sens_0_100 g1) + 5) div 10) :: 16 word)
      in g1\<lparr>shs_sens_st_0_10 := (if 10 < st then 10 else st)\<rparr>)"

definition shs_clamp_u16 :: "16 word \<Rightarrow> 16 word \<Rightarrow> 16 word \<Rightarrow> 16 word" where
  "shs_clamp_u16 v lo hi = (if v < lo then lo else (if hi < v then hi else v))"

definition shs_clamp_u8 :: "byte \<Rightarrow> byte \<Rightarrow> byte \<Rightarrow> byte" where
  "shs_clamp_u8 v lo hi = (if v < lo then lo else (if hi < v then hi else v))"

subsection \<open>Attribute publication (guarded by the stack-ready flag)\<close>

definition shs_zb_set_occ_bitmap :: "byte \<Rightarrow> bool \<Rightarrow> shs_globals \<Rightarrow> shs_globals" where
  "shs_zb_set_occ_bitmap endpoint occupied g =
     (if \<not> shs_zb_ready g then g
      else g\<lparr>zb_attrs := zb_attrs g @
             [\<lparr>zw_endpoint = endpoint,
               zw_cluster = ESP_ZB_ZCL_CLUSTER_ID_OCCUPANCY_SENSING,
               zw_attr = ESP_ZB_ZCL_ATTR_OCCUPANCY_SENSING_OCCUPANCY_ID,
               zw_value = ZclU8 (if occupied then 1 else 0)\<rparr>]\<rparr>)"

definition shs_zb_set_bool_attr ::
  "byte \<Rightarrow> 16 word \<Rightarrow> 16 word \<Rightarrow> bool \<Rightarrow> shs_globals \<Rightarrow> shs_globals" where
  "shs_zb_set_bool_attr endpoint cl attr_id v g =
     (if \<not> shs_zb_ready g then g
      else g\<lparr>zb_attrs := zb_attrs g @
             [\<lparr>zw_endpoint = endpoint, zw_cluster = cl, zw_attr = attr_id,
               zw_value = ZclBool v\<rparr>]\<rparr>)"

definition shs_zb_set_ou_delay_ep2 :: "16 word \<Rightarrow> shs_globals \<Rightarrow> shs_globals" where
  "shs_zb_set_ou_delay_ep2 seconds g =
     (if \<not> shs_zb_ready g then g
      else g\<lparr>zb_attrs := zb_attrs g @
             [\<lparr>zw_endpoint = SHS_EP_OCC,
               zw_cluster = ESP_ZB_ZCL_CLUSTER_ID_OCCUPANCY_SENSING,
               zw_attr = SHS_ZCL_ATTR_OCC_PIR_OU_DELAY,
               zw_value = ZclU16 seconds\<rparr>]\<rparr>)"

section \<open>Presence state machine\<close>

text \<open>\<^verbatim>\<open>shs_mv_cooldown_tick\<close>. The product
  \<^verbatim>\<open>(uint32_t)shs_movement_cooldown_sec * 1000U\<close> and the sum with \<^verbatim>\<open>now_ms\<close> are
  32-bit unsigned.\<close>

definition shs_mv_cooldown_tick :: "32 word \<Rightarrow> shs_globals \<Rightarrow> shs_globals" where
  "shs_mv_cooldown_tick now_ms g =
     (if shs_movement_cooldown_sec g = 0 \<or> \<not> shs_mv_cooldown_active g then g
      else if shs_time_reached now_ms (shs_mv_cooldown_deadline_ms g) then
        (if \<not> shs_last_moving_sample g then
           (let g1 = (if shs_moving_state g
                      then shs_zb_set_bool_attr SHS_EP_OCC ESP_ZB_ZCL_CLUSTER_ID_OCCUPANCY_SENSING
                             SHS_ATTR_OCC_MOVING_TARGET False (g\<lparr>shs_moving_state := False\<rparr>)
                      else g)
            in g1\<lparr>shs_mv_cooldown_active := False\<rparr>)
         else g\<lparr>shs_mv_cooldown_deadline_ms :=
                  now_ms + ucast (shs_movement_cooldown_sec g) * 1000\<rparr>)
      else g)"

text \<open>\<^verbatim>\<open>shs_process_sensor_state\<close>; \<open>now\<close> is the value \<^verbatim>\<open>esp_log_timestamp()\<close> returns
  in the cooldown branch.\<close>

definition shs_process_sensor_state :: "32 word \<Rightarrow> byte \<Rightarrow> shs_globals \<Rightarrow> shs_globals" where
  "shs_process_sensor_state now state_byte g0 =
     (let moving = (state_byte AND 0x01 \<noteq> 0);
          stat = (state_byte AND 0x02 \<noteq> 0);
          presence = (state_byte AND 0x03 \<noteq> 0);
          g1 = g0\<lparr>shs_last_moving_sample := moving\<rparr>;
          g2 = (if shs_movement_cooldown_sec g1 = 0 then
                  (if moving \<noteq> shs_moving_state g1
                   then shs_zb_set_bool_attr SHS_EP_OCC ESP_ZB_ZCL_CLUSTER_ID_OCCUPANCY_SENSING
                          SHS_ATTR_OCC_MOVING_TARGET moving (g1\<lparr>shs_moving_state := moving\<rparr>)
                   else g1)
                else if \<not> shs_mv_cooldown_active g1 then
                  (if moving \<and> \<not> shs_moving_state g1
                   then (shs_zb_set_bool_attr SHS_EP_OCC ESP_ZB_ZCL_CLUSTER_ID_OCCUPANCY_SENSING
                           SHS_ATTR_OCC_MOVING_TARGET True (g1\<lparr>shs_moving_state := True\<rparr>))
                        \<lparr>shs_mv_cooldown_active := True,
                         shs_mv_cooldown_deadline_ms :=
                           now + ucast (shs_movement_cooldown_sec g1) * 1000\<rparr>
                   else g1)
                else shs_mv_cooldown_tick now g1);
          g3 = (if stat \<noteq> shs_static_state g2
                then shs_zb_set_bool_attr SHS_EP_OCC ESP_ZB_ZCL_CLUSTER_ID_OCCUPANCY_SENSING
                       SHS_ATTR_OCC_STATIC_TARGET stat (g2\<lparr>shs_static_state := stat\<rparr>)
                else g2)
      in (if presence \<noteq> shs_occupancy_state g3
          then shs_zb_set_occ_bitmap SHS_EP_OCC presence (g3\<lparr>shs_occupancy_state := presence\<rparr>)
          else g3))"

text \<open>What the sensor task does to the presence state, in order: a decoded state byte
  handed to \<^verbatim>\<open>shs_process_sensor_state\<close>, or the call of \<^verbatim>\<open>shs_mv_cooldown_tick\<close> that
  ends each pass of the task loop. Each comes with the timestamp read at that moment.\<close>

datatype shs_sm_input = Sample byte | Tick

fun shs_sm_step :: "shs_globals \<Rightarrow> 32 word \<times> shs_sm_input \<Rightarrow> shs_globals" where
  "shs_sm_step g (now, Sample b) = shs_process_sensor_state now b g"
| "shs_sm_step g (now, Tick) = shs_mv_cooldown_tick now g"

definition shs_sm_run :: "shs_globals \<Rightarrow> (32 word \<times> shs_sm_input) list \<Rightarrow> shs_globals" where
  "shs_sm_run g ins = foldl shs_sm_step g ins"

section \<open>Durable store\<close>

text \<open>The non-volatile store holds typed values under string keys; a typed read of a key
  that is absent or holds the other type does not return \<^verbatim>\<open>ESP_OK\<close>. Whether
  \<^verbatim>\<open>nvs_open\<close> succeeds is a property of the store (\<open>nvs_ro_ok\<close> for the read-only open
  of the loader, \<open>nvs_rw_ok\<close> for the read-write open of the two save functions).
  \<open>nvs_writes\<close> lists the values that were set and committed, oldest first.\<close>

datatype nvs_value = NvsU8 byte | NvsU16 "16 word"

record nvs_flash =
  nvs_ro_ok :: bool
  nvs_rw_ok :: bool
  nvs_data :: "string \<rightharpoonup> nvs_value"
  nvs_writes :: "(string \<times> nvs_value) list"

definition SHS_NVS_KEY_MV_CD :: string where "SHS_NVS_KEY_MV_CD = ''mv_cd''"
definition SHS_NVS_KEY_OCC_CD :: string where "SHS_NVS_KEY_OCC_CD = ''occ_cd''"
definition SHS_NVS_KEY_MV_SENS :: string where "SHS_NVS_KEY_MV_SENS = ''mv_sens''"
definition SHS_NVS_KEY_ST_SENS :: string where "SHS_NVS_KEY_ST_SENS = ''st_sens''"
definition SHS_NVS_KEY_MV_GATE :: string where "SHS_NVS_KEY_MV_GATE = ''mv_gate''"
definition SHS_NVS_KEY_ST_GATE :: string where "SHS_NVS_KEY_ST_GATE = ''st_gate''"

definition nvs_get_u16 :: "nvs_flash \<Rightarrow> string \<Rightarrow> 16 word option" where
  "nvs_get_u16 h key = (case nvs_data h key of Some (NvsU16 v) \<Rightarrow> Some v | _ \<Rightarrow> None)"

definition nvs_get_u8 :: "nvs_flash \<Rightarrow> string \<Rightarrow> byte option" where
  "nvs_get_u8 h key = (case nvs_data h key of Some (NvsU8 v) \<Rightarrow> Some v | _ \<Rightarrow> None)"

definition shs_cfg_save_u16 :: "string \<Rightarrow> 16 word \<Rightarrow> nvs_flash \<Rightarrow> nvs_flash" where
  "shs_cfg_save_u16 key v h =
     (if \<not> nvs_rw_ok h then h
      else h\<lparr>nvs_data := (nvs_data h)(key \<mapsto> NvsU16 v),
             nvs_writes := nvs_writes h @ [(key, NvsU16 v)]\<rparr>)"

definition shs_cfg_save_u8 :: "string \<Rightarrow> byte \<Rightarrow> nvs_flash \<Rightarrow> nvs_flash" where
  "shs_cfg_save_u8 key v h =
     (if \<not> nvs_rw_ok h then h
      else h\<lparr>nvs_data := (nvs_data h)(key \<mapsto> NvsU8 v),
             nvs_writes := nvs_writes h @ [(key, NvsU8 v)]\<rparr>)"

text \<open>\<^verbatim>\<open>shs_cfg_load_from_nvs\<close>: each key that reads back replaces its variable, clamped;
  the two gate variables are \<^verbatim>\<open>uint16_t\<close> and receive the \<^verbatim>\<open>uint8_t\<close> read.\<close>

definition shs_cfg_load_from_nvs :: "nvs_flash \<Rightarrow> shs_globals \<Rightarrow> shs_globals" where
  "shs_cfg_load_from_nvs h g =
     (if \<not> nvs_ro_ok h then g
      else
        (let g1 = (case nvs_get_u16 h SHS_NVS_KEY_MV_CD of
                     Some u16tmp \<Rightarrow> g\<lparr>shs_movement_cooldown_sec :=
                        (if SHS_COOLDOWN_MAX_SEC < u16tmp then SHS_COOLDOWN_MAX_SEC else u16tmp)\<rparr>
                   | None \<Rightarrow> g);
             g2 = (case nvs_get_u16 h SHS_NVS_KEY_OCC_CD of
                     Some u16tmp \<Rightarrow> g1\<lparr>shs_occupancy_clear_sec := u16tmp\<rparr>
                   | None \<Rightarrow> g1);
             g3 = (case nvs_get_u8 h SHS_NVS_KEY_MV_SENS of
                     Some u8tmp \<Rightarrow> g2\<lparr>shs_moving_sens_0_100 := (if 100 < u8tmp then 100 else u8tmp)\<rparr>
                   | None \<Rightarrow> g2);
             g4 = (case nvs_get_u8 h SHS_NVS_KEY_ST_SENS of
                     Some u8tmp \<Rightarrow> g3\<lparr>shs_static_sens_0_100 := (if 100 < u8tmp then 100 else u8tmp)\<rparr>
                   | None \<Rightarrow> g3);
             g5 = (case nvs_get_u8 h SHS_NVS_KEY_MV_GATE of
                     Some u8tmp \<Rightarrow> g4\<lparr>shs_moving_max_gate := (if 8 < u8tmp then 8 else ucast u8tmp)\<rparr>
                   | None \<Rightarrow> g4);
             g6 = (case nvs_get_u8 h SHS_NVS_KEY_ST_GATE of
                     Some u8tmp \<Rightarrow> g5\<lparr>shs_static_max_gate :=
                        ucast (if u8tmp < 2 then 2 else if 8 < u8tmp then 8 else u8tmp)\<rparr>
                   | None \<Rightarrow> g5)
         in shs_cfg_sync_sens_proxies g6))"

section \<open>Command encoder\<close>

text \<open>\<^verbatim>\<open>shs_ld2410_write_cmd\<close>: send header, little-endian payload length, payload, send
  trailer, handed to \<^verbatim>\<open>uart_write_bytes\<close> in one piece.\<close>

definition shs_ld2410_write_cmd :: "byte list \<Rightarrow> shs_globals \<Rightarrow> shs_globals" where
  "shs_ld2410_write_cmd payload g =
     (let payload_len = (word_of_nat (length payload) :: 16 word)
      in g\<lparr>uart_tx := uart_tx g @
              [0xFD, 0xFC, 0xFB, 0xFA,
               ucast (payload_len AND 0xFF), ucast (drop_bit 8 payload_len AND 0xFF)] @
              payload @ [0x04, 0x03, 0x02, 0x01]\<rparr>)"

definition shs_ld2410_apply_params_all :: "shs_globals \<Rightarrow> shs_globals" where
  "shs_ld2410_apply_params_all g =
     (let mv_gate = shs_clamp_u16 (shs_moving_max_gate g) 0 8;
          st_gate = shs_clamp_u16 (shs_static_max_gate g) 2 8;
          no_one = shs_occupancy_clear_sec g;
          begin_cfg = [0xFF, 0x00, 0x01, 0x00];
          set_params =
            [0x60, 0x00,
             0x00, 0x00, ucast (mv_gate AND 0xFF), 0x00, 0x00, 0x00,
             0x01, 0x00, ucast (st_gate AND 0xFF), 0x00, 0x00, 0x00,
             0x02, 0x00, ucast (no_one AND 0xFF), ucast (drop_bit 8 no_one AND 0xFF), 0x00, 0x00];
          end_cfg = [0xFE, 0x00]
      in shs_ld2410_write_cmd end_cfg
           (shs_ld2410_write_cmd set_params (shs_ld2410_write_cmd begin_cfg g)))"

definition shs_ld2410_apply_global_sensitivity :: "shs_globals \<Rightarrow> shs_globals" where
  "shs_ld2410_apply_global_sensitivity g =
     (let mv = shs_clamp_u8 (shs_moving_sens_0_100 g) 0 100;
          st = shs_clamp_u8 (shs_static_sens_0_100 g) 0 100;
          begin_cfg = [0xFF, 0x00, 0x01, 0x00];
          sens = [0x64, 0x00, 0xFF, 0xFF, mv, 0x00, st, 0x00];
          end_cfg = [0xFE, 0x00]
      in shs_ld2410_write_cmd end_cfg
           (shs_ld2410_write_cmd sens (shs_ld2410_write_cmd begin_cfg g)))"

definition shs_ld2410_apply_no_one_duration :: "16 word \<Rightarrow> shs_globals \<Rightarrow> shs_globals" where
  "shs_ld2410_apply_no_one_duration seconds g =
     shs_ld2410_apply_params_all (g\<lparr>shs_occupancy_clear_sec := seconds\<rparr>)"

section \<open>Configuration writes\<close>

text \<open>The message of the attribute callback: destination endpoint, cluster, attribute
  identifier, and the attribute's value with its type tag: \<open>is_ZclBool\<close> stands for
  \<^verbatim>\<open>data.type == ESP_ZB_ZCL_ATTR_TYPE_BOOL\<close> and \<open>zcl_bool\<close> for \<^verbatim>\<open>*(bool *)data.value\<close>,
  \<open>is_ZclU16\<close> for \<^verbatim>\<open>data.type == ESP_ZB_ZCL_ATTR_TYPE_U16\<close> and \<open>zcl_u16\<close> for
  \<^verbatim>\<open>*(uint16_t *)data.value\<close>.\<close>

record esp_zb_zcl_set_attr_value_message_t =
  dst_endpoint :: byte
  cluster :: "16 word"
  attribute_id :: "16 word"
  attribute_data :: zcl_value

text \<open>The \<^verbatim>\<open>switch\<close> of \<^verbatim>\<open>shs_zb_attribute_handler\<close> on the attribute identifier, for a
  16-bit value \<open>v\<close> written to the configuration cluster. The sensitivity cases compute
  \<^verbatim>\<open>v * 10\<close> in \<^verbatim>\<open>int\<close> and cast it to \<^verbatim>\<open>uint8_t\<close>.\<close>

definition shs_cfg_attr_switch :: "32 word \<Rightarrow> 16 word \<Rightarrow> 16 word \<Rightarrow> shs_globals \<Rightarrow> shs_globals" where
  "shs_cfg_attr_switch now attr v0 g =
     (if attr = SHS_ATTR_MOVEMENT_COOLDOWN then
        (let v = (if SHS_COOLDOWN_MAX_SEC < v0 then SHS_COOLDOWN_MAX_SEC else v0);
             was_zero = (shs_movement_cooldown_sec g = 0);
             g1 = g\<lparr>shs_movement_cooldown_sec := v\<rparr>;
             g2 = shs_save_enqueue SHS_SAVE_IMMEDIATE_U16
                    (push_bit 8 SHS_ATTR_MOVEMENT_COOLDOWN OR 0) g1
         in if shs_movement_cooldown_sec g2 = 0 then g2\<lparr>shs_mv_cooldown_active := False\<rparr>
            else if was_zero \<and> shs_moving_state g2 \<and> \<not> shs_mv_cooldown_active g2
            then g2\<lparr>shs_mv_cooldown_active := True,
                    shs_mv_cooldown_deadline_ms :=
                      now + ucast (shs_movement_cooldown_sec g2) * 1000\<rparr>
            else g2)
      else if attr = SHS_ATTR_OCC_CLEAR_COOLDOWN then
        (let g1 = shs_ld2410_apply_no_one_duration v0 g;
             g2 = shs_zb_set_ou_delay_ep2 (shs_occupancy_clear_sec g1) g1
         in shs_save_enqueue SHS_SAVE_IMMEDIATE_U16
              (push_bit 8 SHS_ATTR_OCC_CLEAR_COOLDOWN OR 0) g2)
      else if attr = SHS_ATTR_MOVING_SENS_0_10 then
        (let v = (if 10 < v0 then 10 else v0);
             g1 = g\<lparr>shs_sens_mv_0_10 := v,
                    shs_moving_sens_0_100 := word_of_nat (unat v * 10)\<rparr>;
             g2 = shs_ld2410_apply_global_sensitivity g1
         in shs_save_enqueue SHS_SAVE_DEBOUNCE_SENS_MOVE (ucast (shs_moving_sens_0_100 g2)) g2)
      else if attr = SHS_ATTR_STATIC_SENS_0_10 then
        (let v = (if 10 < v0 then 10 else v0);
             g1 = g\<lparr>shs_sens_st_0_10 := v,
                    shs_static_sens_0_100 := word_of_nat (unat v * 10)\<rparr>;
             g2 = shs_ld2410_apply_global_sensitivity g1
         in shs_save_enqueue SHS_SAVE_DEBOUNCE_SENS_STATIC (ucast (shs_static_sens_0_100 g2)) g2)
      else if attr = SHS_ATTR_MOVING_MAX_GATE then
        (let v = (if 8 < v0 then 8 else v0);
             g1 = g\<lparr>shs_moving_max_gate := v\<rparr>;
             g2 = shs_ld2410_apply_params_all g1
         in shs_save_enqueue SHS_SAVE_DEBOUNCE_GATE_MOVE (shs_moving_max_gate g2) g2)
      else if attr = SHS_ATTR_STATIC_MAX_GATE then
        (let v = (if v0 < 2 then 2 else if 8 < v0 then 8 else v0);
             g1 = g\<lparr>shs_static_max_gate := v\<rparr>;
             g2 = shs_ld2410_apply_params_all g1
         in shs_save_enqueue SHS_SAVE_DEBOUNCE_GATE_STATIC (shs_static_max_gate g2) g2)
      else g)"

text \<open>\<^verbatim>\<open>shs_zb_attribute_handler\<close>: a null message, the on/off attribute of the light,
  then the configuration cluster; it returns \<^verbatim>\<open>ESP_OK\<close> on every path, so only the state
  is returned. \<open>now\<close> is \<^verbatim>\<open>esp_log_timestamp()\<close>.\<close>

definition shs_zb_attribute_handler ::
  "32 word \<Rightarrow> esp_zb_zcl_set_attr_value_message_t option \<Rightarrow> shs_globals \<Rightarrow> shs_globals" where
  "shs_zb_attribute_handler now message g =
     (case message of
        None \<Rightarrow> g
      | Some m \<Rightarrow>
          if dst_endpoint m = SHS_EP_LIGHT \<and> cluster m = ESP_ZB_ZCL_CLUSTER_ID_ON_OFF \<and>
             attribute_id m = ESP_ZB_ZCL_ATTR_ON_OFF_ON_OFF_ID \<and>
             is_ZclBool (attribute_data m)
          then g\<lparr>light_power := zcl_bool (attribute_data m)\<rparr>
          else if dst_endpoint m = SHS_EP_LIGHT \<and> cluster m = SHS_CL_CFG_ID \<and>
                  is_ZclU16 (attribute_data m)
          then shs_cfg_attr_switch now (attribute_id m) (zcl_u16 (attribute_data m)) g
          else g)"

text \<open>A write of the 16-bit value \<open>v\<close> to attribute \<open>attr\<close> of the configuration cluster
  on endpoint 1, as the attribute protocol delivers it.\<close>

definition shs_cfg_write_msg :: "16 word \<Rightarrow> 16 word \<Rightarrow> esp_zb_zcl_set_attr_value_message_t option" where
  "shs_cfg_write_msg attr v =
     Some \<lparr>dst_endpoint = SHS_EP_LIGHT, cluster = SHS_CL_CFG_ID,
           attribute_id = attr, attribute_data = ZclU16 v\<rparr>"

section \<open>Frame decoder\<close>

text \<open>
  The locals of \<^verbatim>\<open>shs_ld2410_task\<close> that live across passes of its loop: the static
  array \<^verbatim>\<open>acc\<close> of \<^verbatim>\<open>SHS_UART_ACC_BUF_SIZE\<close> bytes and the window
  \<^verbatim>\<open>acc[start .. start + acc_len)\<close> of pending bytes. The \<^verbatim>\<open>size_t\<close> offsets are natural
  numbers: they stay below \<open>1024 + 512\<close>, and each subtraction in the source is of a
  value not larger than the one it is taken from.
\<close>

record shs_acc_t =
  acc :: "byte list"
  start :: nat
  acc_len :: nat

definition shs_acc_init :: shs_acc_t where
  "shs_acc_init = \<lparr>acc = replicate SHS_UART_ACC_BUF_SIZE 0, start = 0, acc_len = 0\<rparr>"

text \<open>\<^verbatim>\<open>memmove(acc, acc + s, n)\<close> and \<^verbatim>\<open>memcpy(acc + off, src, length src)\<close> on the array.\<close>

definition memmove_to_front :: "byte list \<Rightarrow> nat \<Rightarrow> nat \<Rightarrow> byte list" where
  "memmove_to_front a s n = take n (drop s a) @ drop n a"

definition memcpy_at :: "byte list \<Rightarrow> nat \<Rightarrow> byte list \<Rightarrow> byte list" where
  "memcpy_at a off src = take off a @ src @ drop (off + length src) a"

text \<open>The first half of a pass with \<^verbatim>\<open>len > 0\<close>: make room by moving the window to the
  front when the new bytes would run past the end of the array, then copy the new
  bytes behind the window, or only \<^verbatim>\<open>free_space\<close> of them when they still do not fit.\<close>

definition shs_acc_append :: "byte list \<Rightarrow> shs_acc_t \<Rightarrow> shs_acc_t" where
  "shs_acc_append rxbuf a0 =
     (let len = length rxbuf;
          a1 = (if SHS_UART_ACC_BUF_SIZE < start a0 + acc_len a0 + len
                then (if 0 < acc_len a0
                      then a0\<lparr>acc := memmove_to_front (acc a0) (start a0) (acc_len a0)\<rparr>
                      else a0)\<lparr>start := 0\<rparr>
                else a0);
          copy = len
      in if SHS_UART_ACC_BUF_SIZE < start a1 + acc_len a1 + copy
         then (let free_space = SHS_UART_ACC_BUF_SIZE - (start a1 + acc_len a1)
               in a1\<lparr>acc := memcpy_at (acc a1) (start a1 + acc_len a1) (take free_space rxbuf),
                      acc_len := acc_len a1 + free_space\<rparr>)
         else a1\<lparr>acc := memcpy_at (acc a1) (start a1 + acc_len a1) rxbuf,
                 acc_len := acc_len a1 + copy\<rparr>)"

definition shs_hdr_at :: "byte list \<Rightarrow> nat \<Rightarrow> bool" where
  "shs_hdr_at a p = (a ! p = 0xF4 \<and> a ! (p + 1) = 0xF3 \<and> a ! (p + 2) = 0xF2 \<and> a ! (p + 3) = 0xF1)"

definition shs_tail_at :: "byte list \<Rightarrow> nat \<Rightarrow> bool" where
  "shs_tail_at a p = (a ! p = 0xF8 \<and> a ! (p + 1) = 0xF7 \<and> a ! (p + 2) = 0xF6 \<and> a ! (p + 3) = 0xF5)"

text \<open>The inner \<^verbatim>\<open>for (; h + 4 <= acc_len; ++h)\<close> that stops at the first receive header.\<close>

function shs_find_hdr :: "byte list \<Rightarrow> nat \<Rightarrow> nat \<Rightarrow> nat \<Rightarrow> nat" where
  "shs_find_hdr a s n h =
     (if h + 4 \<le> n
      then (if shs_hdr_at a (s + h) then h else shs_find_hdr a s n (h + 1))
      else h)"
  by pat_completeness auto
termination
  by (relation "measure (\<lambda>(a, s, n, h). n + 4 - h)") auto

declare shs_find_hdr.simps [simp del]

text \<open>The test that sets \<^verbatim>\<open>consumed = true\<close> for a header at offset \<open>h\<close> of the window:
  ten bytes present, the whole declared frame present, and the receive trailer in its
  last four bytes. \<open>shs_frame_total\<close> is \<^verbatim>\<open>4 + 2 + le_len + 4\<close> with the length field
  read little-endian.\<close>

definition shs_le_len :: "shs_acc_t \<Rightarrow> nat \<Rightarrow> 16 word" where
  "shs_le_len a h =
     (ucast (acc a ! (start a + h + 4)) :: 16 word) OR
     push_bit 8 (ucast (acc a ! (start a + h + 5)) :: 16 word)"

definition shs_frame_total :: "shs_acc_t \<Rightarrow> nat \<Rightarrow> nat" where
  "shs_frame_total a h = 4 + 2 + unat (shs_le_len a h) + 4"

definition shs_frame_confirmed :: "shs_acc_t \<Rightarrow> nat \<Rightarrow> bool" where
  "shs_frame_confirmed a h =
     (if 10 \<le> acc_len a - h
      then (if h + shs_frame_total a h \<le> acc_len a
            then shs_tail_at (acc a) (start a + h + shs_frame_total a h - 4)
            else False)
      else False)"

text \<open>
  The \<^verbatim>\<open>while (acc_len - i >= SHS_LD2410_MIN_FRAME_BYTES)\<close> loop. The source sets \<^verbatim>\<open>i\<close>
  to a value other than 0 only immediately before a \<^verbatim>\<open>break\<close> and never reads it after
  the loop, so the loop test is always on \<^verbatim>\<open>acc_len\<close>. The loop calls
  \<^verbatim>\<open>shs_process_sensor_state\<close> on a state byte in both the confirmed and the fallback
  branch; the model returns these bytes in the order of the calls, next to the buffer.
\<close>

function shs_frame_loop :: "shs_acc_t \<Rightarrow> shs_acc_t \<times> byte list" where
  "shs_frame_loop a =
     (if SHS_LD2410_MIN_FRAME_BYTES \<le> acc_len a then
        (let h = shs_find_hdr (acc a) (start a) (acc_len a) 0
         in if acc_len a < h + SHS_LD2410_MIN_FRAME_BYTES then (a, [])
            else if acc_len a \<le> h then (a, [])
            else
              (let drop_n = (if shs_frame_confirmed a h then h + shs_frame_total a h
                             else h + SHS_LD2410_MIN_FRAME_BYTES);
                   state_byte = acc a ! (start a + h + 8);
                   r = shs_frame_loop (a\<lparr>start := start a + drop_n,
                                          acc_len := acc_len a - drop_n\<rparr>)
               in (fst r, state_byte # snd r)))
      else (a, []))"
  by pat_completeness auto
termination
  by (relation "measure acc_len")
     (auto simp: SHS_LD2410_MIN_FRAME_BYTES_def shs_frame_total_def)

declare shs_frame_loop.simps [simp del]

text \<open>One pass of the task loop up to the cooldown tick: \<open>rxbuf\<close> holds the \<^verbatim>\<open>len\<close>
  bytes that \<^verbatim>\<open>uart_read_bytes\<close> returned, at most \<^verbatim>\<open>sizeof(rxbuf)\<close>, none when the
  read timed out or failed.\<close>

definition shs_ld2410_rx :: "byte list \<Rightarrow> shs_acc_t \<Rightarrow> shs_acc_t \<times> byte list" where
  "shs_ld2410_rx rxbuf a =
     (if 0 < length rxbuf then shs_frame_loop (shs_acc_append rxbuf a) else (a, []))"

text \<open>Successive reads: the buffer after the last read and all state bytes handed to
  the state machine, in order.\<close>

fun shs_ld2410_rx_all :: "byte list list \<Rightarrow> shs_acc_t \<Rightarrow> shs_acc_t \<times> byte list" where
  "shs_ld2410_rx_all [] a = (a, [])"
| "shs_ld2410_rx_all (rxbuf # rest) a =
     (let r1 = shs_ld2410_rx rxbuf a;
          r2 = shs_ld2410_rx_all rest (fst r1)
      in (fst r2, snd r1 @ snd r2))"

text \<open>The pending bytes, and the shape every buffer of the task has.\<close>

definition shs_pending :: "shs_acc_t \<Rightarrow> byte list" where
  "shs_pending a = take (acc_len a) (drop (start a) (acc a))"

definition shs_acc_ok :: "shs_acc_t \<Rightarrow> bool" where
  "shs_acc_ok a =
     (length (acc a) = SHS_UART_ACC_BUF_SIZE \<and> start a + acc_len a \<le> SHS_UART_ACC_BUF_SIZE)"

text \<open>A receive frame as the radar module sends it: receive header, payload length in
  two bytes little-endian, payload, receive trailer.\<close>

definition shs_rx_frame :: "byte list \<Rightarrow> byte list" where
  "shs_rx_frame payload =
     [0xF4, 0xF3, 0xF2, 0xF1] @
     [word_of_nat (length payload mod 256), word_of_nat (length payload div 256)] @
     payload @ [0xF8, 0xF7, 0xF6, 0xF5]"

text \<open>Whether the four header bytes occur in a byte list at some offset.\<close>

fun shs_has_hdr :: "byte list \<Rightarrow> bool" where
  "shs_has_hdr (b0 # b1 # b2 # b3 # rest) =
     ((b0 = 0xF4 \<and> b1 = 0xF3 \<and> b2 = 0xF2 \<and> b3 = 0xF1) \<or> shs_has_hdr (b1 # b2 # b3 # rest))"
| "shs_has_hdr _ = False"

section \<open>Save worker\<close>

text \<open>
  The locals of \<^verbatim>\<open>shs_save_worker\<close>. \<^verbatim>\<open>TickType_t\<close> is 32 bits wide. One pass of the
  worker's loop receives at most one message (\<^verbatim>\<open>xQueueReceive\<close> with a 50 ms timeout),
  stamps it with \<^verbatim>\<open>xTaskGetTickCount()\<close>, reads the tick count again and flushes every
  pending field whose stamp is at least \<^verbatim>\<open>pdMS_TO_TICKS(SHS_NVS_DEBOUNCE_MS)\<close> ticks
  old. That tick count depends on the tick rate of the build, which the repository does
  not fix; it is the parameter \<open>debounce_ticks\<close>.
\<close>

record shs_save_worker_t =
  last_mv_sens :: "32 word"
  last_st_sens :: "32 word"
  last_mv_gate :: "32 word"
  last_st_gate :: "32 word"
  pend_mv_sens :: bool
  pend_st_sens :: bool
  pend_mv_gate :: bool
  pend_st_gate :: bool
  mv_sens_val :: byte
  st_sens_val :: byte
  mv_gate_val :: byte
  st_gate_val :: byte

definition shs_save_worker_init :: "shs_globals \<Rightarrow> shs_save_worker_t" where
  "shs_save_worker_init g =
     \<lparr>last_mv_sens = 0, last_st_sens = 0, last_mv_gate = 0, last_st_gate = 0,
      pend_mv_sens = False, pend_st_sens = False, pend_mv_gate = False, pend_st_gate = False,
      mv_sens_val = shs_moving_sens_0_100 g, st_sens_val = shs_static_sens_0_100 g,
      mv_gate_val = ucast (shs_moving_max_gate g), st_gate_val = ucast (shs_static_max_gate g)\<rparr>"

text \<open>What one pass takes from outside: the configuration variables as they stand, the
  message received (if any), the tick count read when the message is stamped, and the
  tick count read for the flush test.\<close>

record shs_save_pass_t =
  sp_globals :: shs_globals
  sp_msg :: "shs_save_msg_t option"
  sp_tick_recv :: "32 word"
  sp_tick_now :: "32 word"

definition shs_save_worker_recv ::
  "shs_save_pass_t \<Rightarrow> shs_save_worker_t \<times> nvs_flash \<Rightarrow> shs_save_worker_t \<times> nvs_flash" where
  "shs_save_worker_recv p wh =
     (let w = fst wh; h = snd wh
      in case sp_msg p of
           None \<Rightarrow> (w, h)
         | Some m \<Rightarrow>
             (case msg_type m of
                SHS_SAVE_IMMEDIATE_U16 \<Rightarrow>
                  (if drop_bit 8 (msg_u16 m) = SHS_ATTR_MOVEMENT_COOLDOWN
                   then (w, shs_cfg_save_u16 SHS_NVS_KEY_MV_CD
                               (shs_movement_cooldown_sec (sp_globals p)) h)
                   else if drop_bit 8 (msg_u16 m) = SHS_ATTR_OCC_CLEAR_COOLDOWN
                   then (w, shs_cfg_save_u16 SHS_NVS_KEY_OCC_CD
                               (shs_occupancy_clear_sec (sp_globals p)) h)
                   else (w, h))
              | SHS_SAVE_DEBOUNCE_SENS_MOVE \<Rightarrow>
                  (w\<lparr>mv_sens_val := ucast (msg_u16 m), pend_mv_sens := True,
                     last_mv_sens := sp_tick_recv p\<rparr>, h)
              | SHS_SAVE_DEBOUNCE_SENS_STATIC \<Rightarrow>
                  (w\<lparr>st_sens_val := ucast (msg_u16 m), pend_st_sens := True,
                     last_st_sens := sp_tick_recv p\<rparr>, h)
              | SHS_SAVE_DEBOUNCE_GATE_MOVE \<Rightarrow>
                  (w\<lparr>mv_gate_val := ucast (msg_u16 m), pend_mv_gate := True,
                     last_mv_gate := sp_tick_recv p\<rparr>, h)
              | SHS_SAVE_DEBOUNCE_GATE_STATIC \<Rightarrow>
                  (w\<lparr>st_gate_val := ucast (msg_u16 m), pend_st_gate := True,
                     last_st_gate := sp_tick_recv p\<rparr>, h)))"

text \<open>The four flush tests that end a pass, in the order of the source.\<close>

definition shs_flush_mv_sens ::
  "32 word \<Rightarrow> 32 word \<Rightarrow> shs_save_worker_t \<times> nvs_flash \<Rightarrow> shs_save_worker_t \<times> nvs_flash" where
  "shs_flush_mv_sens debounce_ticks now wh =
     (if pend_mv_sens (fst wh) \<and> debounce_ticks \<le> now - last_mv_sens (fst wh)
      then ((fst wh)\<lparr>pend_mv_sens := False\<rparr>,
            shs_cfg_save_u8 SHS_NVS_KEY_MV_SENS (mv_sens_val (fst wh)) (snd wh))
      else wh)"

definition shs_flush_st_sens ::
  "32 word \<Rightarrow> 32 word \<Rightarrow> shs_save_worker_t \<times> nvs_flash \<Rightarrow> shs_save_worker_t \<times> nvs_flash" where
  "shs_flush_st_sens debounce_ticks now wh =
     (if pend_st_sens (fst wh) \<and> debounce_ticks \<le> now - last_st_sens (fst wh)
      then ((fst wh)\<lparr>pend_st_sens := False\<rparr>,
            shs_cfg_save_u8 SHS_NVS_KEY_ST_SENS (st_sens_val (fst wh)) (snd wh))
      else wh)"

definition shs_flush_mv_gate ::
  "32 word \<Rightarrow> 32 word \<Rightarrow> shs_save_worker_t \<times> nvs_flash \<Rightarrow> shs_save_worker_t \<times> nvs_flash" where
  "shs_flush_mv_gate debounce_ticks now wh =
     (if pend_mv_gate (fst wh) \<and> debounce_ticks \<le> now - last_mv_gate (fst wh)
      then ((fst wh)\<lparr>pend_mv_gate := False\<rparr>,
            shs_cfg_save_u8 SHS_NVS_KEY_MV_GATE (mv_gate_val (fst wh)) (snd wh))
      else wh)"

definition shs_flush_st_gate ::
  "32 word \<Rightarrow> 32 word \<Rightarrow> shs_save_worker_t \<times> nvs_flash \<Rightarrow> shs_save_worker_t \<times> nvs_flash" where
  "shs_flush_st_gate debounce_ticks now wh =
     (if pend_st_gate (fst wh) \<and> debounce_ticks \<le> now - last_st_gate (fst wh)
      then ((fst wh)\<lparr>pend_st_gate := False\<rparr>,
            shs_cfg_save_u8 SHS_NVS_KEY_ST_GATE (st_gate_val (fst wh)) (snd wh))
      else wh)"

definition shs_save_worker_flush ::
  "32 word \<Rightarrow> 32 word \<Rightarrow> shs_save_worker_t \<times> nvs_flash \<Rightarrow> shs_save_worker_t \<times> nvs_flash" where
  "shs_save_worker_flush debounce_ticks now wh =
     shs_flush_st_gate debounce_ticks now
       (shs_flush_mv_gate debounce_ticks now
          (shs_flush_st_sens debounce_ticks now
             (shs_flush_mv_sens debounce_ticks now wh)))"

definition shs_save_worker_pass ::
  "32 word \<Rightarrow> shs_save_worker_t \<times> nvs_flash \<Rightarrow> shs_save_pass_t \<Rightarrow> shs_save_worker_t \<times> nvs_flash" where
  "shs_save_worker_pass debounce_ticks wh p =
     shs_save_worker_flush debounce_ticks (sp_tick_now p) (shs_save_worker_recv p wh)"

definition shs_save_worker_run ::
  "32 word \<Rightarrow> shs_save_worker_t \<times> nvs_flash \<Rightarrow> shs_save_pass_t list \<Rightarrow> shs_save_worker_t \<times> nvs_flash" where
  "shs_save_worker_run debounce_ticks wh ps = foldl (shs_save_worker_pass debounce_ticks) wh ps"

section \<open>Reference inputs\<close>

text \<open>The state after boot once the attribute protocol has written 5 to the movement
  cooldown attribute.\<close>

definition shs_cooldown5 :: shs_globals where
  "shs_cooldown5 =
     shs_zb_attribute_handler 0 (shs_cfg_write_msg SHS_ATTR_MOVEMENT_COOLDOWN 5) shs_init"

text \<open>State-machine inputs given by their distance in milliseconds from a time \<open>t0\<close>.\<close>

definition shs_sm_after ::
  "32 word \<Rightarrow> (nat \<times> shs_sm_input) list \<Rightarrow> (32 word \<times> shs_sm_input) list" where
  "shs_sm_after t0 ins = map (\<lambda>(d, i). (t0 + word_of_nat d, i)) ins"

text \<open>The ranges of the configuration record, as the comments on the variables give
  them: cooldown 0..300, sensitivities 0..100, moving gate 0..8, static gate 2..8, and
  the two sensitivity proxies 0..10 (the occupancy-clear seconds take the whole 16-bit
  range).\<close>

definition shs_cfg_in_range :: "shs_globals \<Rightarrow> bool" where
  "shs_cfg_in_range g =
     (shs_movement_cooldown_sec g \<le> 300 \<and>
      shs_moving_sens_0_100 g \<le> 100 \<and>
      shs_static_sens_0_100 g \<le> 100 \<and>
      shs_moving_max_gate g \<le> 8 \<and>
      2 \<le> shs_static_max_gate g \<and> shs_static_max_gate g \<le> 8 \<and>
      shs_sens_mv_0_10 g \<le> 10 \<and> shs_sens_st_0_10 g \<le> 10)"

text \<open>A store that opens for reading and holds \<open>v\<close> under \<open>key\<close>; and an erased store,
  whose namespace does not exist yet.\<close>

definition nvs_stored :: "string \<Rightarrow> nvs_value \<Rightarrow> nvs_flash \<Rightarrow> nvs_flash" where
  "nvs_stored key v h = h\<lparr>nvs_ro_ok := True, nvs_data := (nvs_data h)(key \<mapsto> v)\<rparr>"

definition nvs_empty :: nvs_flash where
  "nvs_empty = \<lparr>nvs_ro_ok = False, nvs_rw_ok = True, nvs_data = Map.empty, nvs_writes = []\<rparr>"

text \<open>The state after boot once a moving target has been reported with the cooldown
  still at its initial 0.\<close>

definition shs_moving_no_cooldown :: shs_globals where
  "shs_moving_no_cooldown = shs_sm_run shs_init [(0, Sample 0x01)]"

text \<open>
  The save worker seen from one debounced field \<open>F\<close> (a message type other than
  \<open>SHS_SAVE_IMMEDIATE_U16\<close>): the field's key in the store, its pending flag, its stamp,
  its buffered value, and the writes the store received under its key.
\<close>

fun shs_field_key :: "shs_save_evt_t \<Rightarrow> string" where
  "shs_field_key SHS_SAVE_DEBOUNCE_SENS_MOVE = SHS_NVS_KEY_MV_SENS"
| "shs_field_key SHS_SAVE_DEBOUNCE_SENS_STATIC = SHS_NVS_KEY_ST_SENS"
| "shs_field_key SHS_SAVE_DEBOUNCE_GATE_MOVE = SHS_NVS_KEY_MV_GATE"
| "shs_field_key SHS_SAVE_DEBOUNCE_GATE_STATIC = SHS_NVS_KEY_ST_GATE"
| "shs_field_key SHS_SAVE_IMMEDIATE_U16 = []"

fun shs_field_pend :: "shs_save_evt_t \<Rightarrow> shs_save_worker_t \<Rightarrow> bool" where
  "shs_field_pend SHS_SAVE_DEBOUNCE_SENS_MOVE w = pend_mv_sens w"
| "shs_field_pend SHS_SAVE_DEBOUNCE_SENS_STATIC w = pend_st_sens w"
| "shs_field_pend SHS_SAVE_DEBOUNCE_GATE_MOVE w = pend_mv_gate w"
| "shs_field_pend SHS_SAVE_DEBOUNCE_GATE_STATIC w = pend_st_gate w"
| "shs_field_pend SHS_SAVE_IMMEDIATE_U16 w = False"

fun shs_field_last :: "shs_save_evt_t \<Rightarrow> shs_save_worker_t \<Rightarrow> 32 word" where
  "shs_field_last SHS_SAVE_DEBOUNCE_SENS_MOVE w = last_mv_sens w"
| "shs_field_last SHS_SAVE_DEBOUNCE_SENS_STATIC w = last_st_sens w"
| "shs_field_last SHS_SAVE_DEBOUNCE_GATE_MOVE w = last_mv_gate w"
| "shs_field_last SHS_SAVE_DEBOUNCE_GATE_STATIC w = last_st_gate w"
| "shs_field_last SHS_SAVE_IMMEDIATE_U16 w = 0"

fun shs_field_val :: "shs_save_evt_t \<Rightarrow> shs_save_worker_t \<Rightarrow> byte" where
  "shs_field_val SHS_SAVE_DEBOUNCE_SENS_MOVE w = mv_sens_val w"
| "shs_field_val SHS_SAVE_DEBOUNCE_SENS_STATIC w = st_sens_val w"
| "shs_field_val SHS_SAVE_DEBOUNCE_GATE_MOVE w = mv_gate_val w"
| "shs_field_val SHS_SAVE_DEBOUNCE_GATE_STATIC w = st_gate_val w"
| "shs_field_val SHS_SAVE_IMMEDIATE_U16 w = 0"

definition shs_field_writes :: "shs_save_evt_t \<Rightarrow> nvs_flash \<Rightarrow> (string \<times> nvs_value) list" where
  "shs_field_writes F h = filter (\<lambda>kv. fst kv = shs_field_key F) (nvs_writes h)"

definition shs_field_view ::
  "shs_save_evt_t \<Rightarrow> shs_save_worker_t \<times> nvs_flash \<Rightarrow>
   bool \<times> 32 word \<times> byte \<times> (string \<times> nvs_value) list" where
  "shs_field_view F wh =
     (shs_field_pend F (fst wh), shs_field_last F (fst wh), shs_field_val F (fst wh),
      shs_field_writes F (snd wh))"

text \<open>A pass carries a request for \<open>F\<close> when it receives a message of that type.
  \<open>shs_quiet_lt D F l ps\<close>: at the flush test of every pass of \<open>ps\<close>, fewer than \<open>D\<close>
  ticks have gone by since the stamp of the latest request for \<open>F\<close> (\<open>l\<close> is the stamp
  before \<open>ps\<close>). \<open>shs_last_req F ps\<close> is the value and stamp of the last request for \<open>F\<close>
  in \<open>ps\<close>.\<close>

definition shs_is_req :: "shs_save_evt_t \<Rightarrow> shs_save_pass_t \<Rightarrow> bool" where
  "shs_is_req F p = (case sp_msg p of None \<Rightarrow> False | Some m \<Rightarrow> msg_type m = F)"

fun shs_quiet_lt :: "32 word \<Rightarrow> shs_save_evt_t \<Rightarrow> 32 word \<Rightarrow> shs_save_pass_t list \<Rightarrow> bool" where
  "shs_quiet_lt D F l [] = True"
| "shs_quiet_lt D F l (p # ps) =
     (sp_tick_now p - (if shs_is_req F p then sp_tick_recv p else l) < D \<and>
      shs_quiet_lt D F (if shs_is_req F p then sp_tick_recv p else l) ps)"

fun shs_last_req :: "shs_save_evt_t \<Rightarrow> shs_save_pass_t list \<Rightarrow> (16 word \<times> 32 word) option" where
  "shs_last_req F [] = None"
| "shs_last_req F (p # ps) =
     (case shs_last_req F ps of
        Some r \<Rightarrow> Some r
      | None \<Rightarrow>
          (case sp_msg p of
             None \<Rightarrow> None
           | Some m \<Rightarrow> if msg_type m = F then Some (msg_u16 m, sp_tick_recv p) else None))"

text \<open>The view of a field after its own flush test at tick \<open>now\<close>.\<close>

definition shs_flushed ::
  "shs_save_evt_t \<Rightarrow> 32 word \<Rightarrow> 32 word \<Rightarrow> shs_save_worker_t \<times> nvs_flash \<Rightarrow>
   bool \<times> 32 word \<times> byte \<times> (string \<times> nvs_value) list" where
  "shs_flushed F D now wh =
     (if shs_field_pend F (fst wh) \<and> D \<le> now - shs_field_last F (fst wh)
      then (False, shs_field_last F (fst wh), shs_field_val F (fst wh),
            shs_field_writes F (snd wh) @ [(shs_field_key F, NvsU8 (shs_field_val F (fst wh)))])
      else shs_field_view F wh)"

text \<open>A pass at tick \<open>t\<close> (both readings of the tick count) that receives \<open>m\<close>, and a
  request message for a field.\<close>

definition shs_pass_at :: "shs_save_msg_t option \<Rightarrow> 32 word \<Rightarrow> shs_save_pass_t" where
  "shs_pass_at m t = \<lparr>sp_globals = shs_init, sp_msg = m, sp_tick_recv = t, sp_tick_now = t\<rparr>"

definition shs_req :: "shs_save_evt_t \<Rightarrow> 16 word \<Rightarrow> shs_save_msg_t option" where
  "shs_req F v = Some \<lparr>msg_type = F, msg_u16 = v\<rparr>"

text \<open>Whether a receive header stands in a frame at an offset of 9 or more with at
  least nine bytes from there to the end of the frame.\<close>

definition shs_inner_hdr :: "byte list \<Rightarrow> bool" where
  "shs_inner_hdr fr = (\<exists>j \<in> set [9 ..< length fr - 8]. shs_hdr_at fr j)"

text \<open>Two payloads: a target report of the radar module in its basic mode (type
  \<^verbatim>\<open>0x02\<close>, head \<^verbatim>\<open>0xAA\<close>, state byte \<^verbatim>\<open>0x01\<close>, distances and energies, tail \<^verbatim>\<open>0x55\<close>,
  check \<^verbatim>\<open>0x00\<close>), and one whose bytes after the state byte spell the receive header.\<close>

definition shs_basic_payload :: "byte list" where
  "shs_basic_payload =
     [0x02, 0xAA, 0x01, 0x1E, 0x00, 0x3C, 0x00, 0x00, 0x00, 0x1E, 0x00, 0x55, 0x00]"

definition shs_inner_hdr_payload :: "byte list" where
  "shs_inner_hdr_payload = [0x02, 0xAA, 0x01, 0xF4, 0xF3, 0xF2, 0xF1, 0x00, 0x00, 0x00, 0x00]"

text \<open>
  The frame loop read off the window as a plain byte list, in the words of the
  specification. \<open>shs_first_hdr\<close> is the offset of the first receive header in the
  window, or of the first position at which four bytes no longer fit.
\<close>

fun shs_first_hdr :: "byte list \<Rightarrow> nat" where
  "shs_first_hdr (b0 # b1 # b2 # b3 # rest) =
     (if b0 = 0xF4 \<and> b1 = 0xF3 \<and> b2 = 0xF2 \<and> b3 = 0xF1 then 0
      else Suc (shs_first_hdr (b1 # b2 # b3 # rest)))"
| "shs_first_hdr _ = 0"

text \<open>The total size that the length field of a frame at offset \<open>h\<close> declares, and
  whether that frame is confirmed: ten bytes from the header on, the declared frame
  whole in the window, the receive trailer in its last four bytes.\<close>

definition shs_win_total :: "byte list \<Rightarrow> nat \<Rightarrow> nat" where
  "shs_win_total w h = 4 + 2 + (unat (w ! (h + 4)) + 256 * unat (w ! (h + 5))) + 4"

definition shs_win_confirmed :: "byte list \<Rightarrow> nat \<Rightarrow> bool" where
  "shs_win_confirmed w h =
     (h + 10 \<le> length w \<and> h + shs_win_total w h \<le> length w \<and>
      shs_tail_at w (h + shs_win_total w h - 4))"

text \<open>The number of bytes one turn takes from the front of the window: none when
  fewer than nine bytes follow the start of the first header; otherwise the bytes in
  front of that header together with the confirmed frame, or with the minimum frame of
  nine bytes when the frame is not confirmed. \<open>shs_consume\<close> repeats the turn and
  returns what is left of the window and the state bytes of the frames taken.\<close>

definition shs_taken :: "byte list \<Rightarrow> nat" where
  "shs_taken w =
     (let h = shs_first_hdr w
      in if length w < h + 9 then 0
         else if shs_win_confirmed w h then h + shs_win_total w h
         else h + 9)"

function shs_consume :: "byte list \<Rightarrow> byte list \<times> byte list" where
  "shs_consume w =
     (if shs_taken w = 0 then (w, [])
      else (let r = shs_consume (drop (shs_taken w) w)
            in (fst r, w ! (shs_first_hdr w + 8) # snd r)))"
  by pat_completeness auto
termination
  by (relation "measure length") (auto simp: shs_taken_def Let_def split: if_splits)

declare shs_consume.simps [simp del]

text \<open>A segment with its state byte: bytes without a header in front of them, then
  a header, the state byte eight bytes after the header's start, and as the whole rest
  either the minimum frame of nine bytes or the frame of the declared size with the
  receive trailer at its end.\<close>

definition shs_segment :: "byte list \<Rightarrow> byte \<Rightarrow> bool" where
  "shs_segment s b =
     (let h = shs_first_hdr s
      in h + 9 \<le> length s \<and> shs_hdr_at s h \<and> b = s ! (h + 8) \<and>
         (length s = h + 9 \<or>
          (length s = h + shs_win_total s h \<and> shs_tail_at s (length s - 4))))"

section \<open>Wrap-around deadline test\<close>

lemma sint_nonneg_iff32: "(0 \<le> sint (w :: 32 word)) = (unat w < 2 ^ 31)"
proof -
  have "(0 \<le> sint w) = (\<not> bit w 31)"
    using bit_last_iff [of w] by auto
  also have "\<dots> = (unat w < 2 ^ 31)"
  proof -
    have "unat w = take_bit 32 (unat w)"
    proof -
      have "unat w < 2 ^ LENGTH(32)" by (rule unsigned_less)
      then show ?thesis by (simp add: take_bit_eq_mod)
    qed
    then have "unat w = 2 ^ 31 * of_bool (bit (unat w) 31) + take_bit 31 (unat w)"
      using take_bit_Suc_from_most [of 31 "unat w"] by simp
    moreover have "take_bit 31 (unat w) < 2 ^ 31" by (rule take_bit_nat_less_exp)
    moreover have "bit (unat w) 31 = bit w 31" by (simp add: bit_unsigned_iff)
    ultimately show ?thesis by (auto split: if_splits)
  qed
  finally show ?thesis .
qed

lemma shs_time_reached_iff:
  "shs_time_reached now dl = (unat (now - dl) < 2 ^ 31)"
  unfolding shs_time_reached_def by (rule sint_nonneg_iff32)

lemma shs_time_reached_after:
  "d < 2 ^ 31 \<Longrightarrow> shs_time_reached (dl + word_of_nat d) dl"
  by (simp add: shs_time_reached_iff unat_of_nat)

lemma shs_time_reached_before:
  assumes "0 < d" and "d \<le> 2 ^ 31"
  shows "\<not> shs_time_reached now (now + word_of_nat d)"
proof -
  have "unat (word_of_nat d :: 32 word) = d"
    using assms by (simp add: unat_of_nat)
  then have "unat (- (word_of_nat d :: 32 word)) = 2 ^ 32 - d"
    using assms unat_sub_if_size [of "0 :: 32 word" "word_of_nat d"] by (simp add: word_size)
  then show ?thesis
    using assms by (simp add: shs_time_reached_iff)
qed

text \<open>
  Claim C10. Two 32-bit millisecond timestamps less than \<open>2 ^ 31\<close> apart in arithmetic
  modulo \<open>2 ^ 32\<close> are ordered by the sign of their wrapped difference: when \<open>now\<close> lies
  \<open>d < 2 ^ 31\<close> milliseconds at or after the deadline (\<open>now = deadline + d\<close>, the sum
  wrapping), \<^verbatim>\<open>shs_time_reached\<close> returns true; when the deadline lies \<open>0 < d < 2 ^ 31\<close>
  milliseconds after \<open>now\<close>, it returns false. Neither case asks whether the counter
  wrapped between the two readings. The cooldown tick inherits this: with an armed timer
  and a last raw sample of false, a tick at \<open>deadline + d\<close> clears the moving flag and a
  tick \<open>d\<close> milliseconds before the deadline leaves the state alone.
\<close>

theorem C10_time_reached_wraparound:
  "(\<forall>dl d. d < 2 ^ 31 \<longrightarrow> shs_time_reached (dl + word_of_nat d) dl) \<and>
   (\<forall>now d. 0 < d \<and> d < 2 ^ 31 \<longrightarrow> \<not> shs_time_reached now (now + word_of_nat d)) \<and>
   (\<forall>g d. shs_movement_cooldown_sec g \<noteq> 0 \<and> shs_mv_cooldown_active g \<and>
           \<not> shs_last_moving_sample g \<and> d < 2 ^ 31 \<longrightarrow>
      \<not> shs_moving_state
          (shs_mv_cooldown_tick (shs_mv_cooldown_deadline_ms g + word_of_nat d) g) \<and>
      \<not> shs_mv_cooldown_active
          (shs_mv_cooldown_tick (shs_mv_cooldown_deadline_ms g + word_of_nat d) g)) \<and>
   (\<forall>g now d. 0 < d \<and> d < 2 ^ 31 \<and> shs_mv_cooldown_deadline_ms g = now + word_of_nat d \<longrightarrow>
      shs_mv_cooldown_tick now g = g)"
proof (intro conjI allI impI)
  fix dl :: "32 word" and d :: nat
  assume "d < 2 ^ 31"
  then show "shs_time_reached (dl + word_of_nat d) dl"
    by (rule shs_time_reached_after)
next
  fix now :: "32 word" and d :: nat
  assume "0 < d \<and> d < 2 ^ 31"
  then show "\<not> shs_time_reached now (now + word_of_nat d)"
    using shs_time_reached_before [of d now] by simp
next
  fix g :: shs_globals and d :: nat
  assume a: "shs_movement_cooldown_sec g \<noteq> 0 \<and> shs_mv_cooldown_active g \<and>
             \<not> shs_last_moving_sample g \<and> d < 2 ^ 31"
  then have r: "shs_time_reached (shs_mv_cooldown_deadline_ms g + word_of_nat d)
                  (shs_mv_cooldown_deadline_ms g)"
    using shs_time_reached_after by blast
  show "\<not> shs_moving_state
          (shs_mv_cooldown_tick (shs_mv_cooldown_deadline_ms g + word_of_nat d) g)"
    using a r by (simp add: shs_mv_cooldown_tick_def shs_zb_set_bool_attr_def)
  show "\<not> shs_mv_cooldown_active
          (shs_mv_cooldown_tick (shs_mv_cooldown_deadline_ms g + word_of_nat d) g)"
    using a r by (simp add: shs_mv_cooldown_tick_def shs_zb_set_bool_attr_def)
next
  fix g :: shs_globals and now :: "32 word" and d :: nat
  assume a: "0 < d \<and> d < 2 ^ 31 \<and> shs_mv_cooldown_deadline_ms g = now + word_of_nat d"
  then have "\<not> shs_time_reached now (shs_mv_cooldown_deadline_ms g)"
    using shs_time_reached_before [of d now] by simp
  then show "shs_mv_cooldown_tick now g = g"
    by (simp add: shs_mv_cooldown_tick_def)
qed

text \<open>The deadline \<^verbatim>\<open>0xFFFFFF00\<close> is reached at \<open>now = 0x10\<close>, after the counter has
  wrapped, and not yet at \<^verbatim>\<open>0xFFFFFE00\<close>.\<close>

theorem C10_time_reached_wraparound_witness:
  "shs_time_reached 0x10 0xFFFFFF00 \<and> \<not> shs_time_reached 0xFFFFFE00 0xFFFFFF00"
proof -
  note c = C10_time_reached_wraparound
  from c have f1: "\<And>dl d. d < 2 ^ 31 \<Longrightarrow> shs_time_reached (dl + word_of_nat d) dl"
    by blast
  from c have f2: "\<And>now d. 0 < d \<Longrightarrow> d < 2 ^ 31 \<Longrightarrow>
      \<not> shs_time_reached now (now + word_of_nat d)"
    by blast
  have a: "shs_time_reached 0x10 0xFFFFFF00"
  proof -
    have "shs_time_reached (0xFFFFFF00 + word_of_nat 272) 0xFFFFFF00"
      by (rule f1) simp
    moreover have "(0xFFFFFF00 + word_of_nat 272 :: 32 word) = 0x10"
      by simp
    ultimately show ?thesis by (simp only:)
  qed
  have b: "\<not> shs_time_reached 0xFFFFFE00 0xFFFFFF00"
  proof -
    have "\<not> shs_time_reached 0xFFFFFE00 (0xFFFFFE00 + word_of_nat 256)"
      by (rule f2) simp_all
    moreover have "(0xFFFFFE00 + word_of_nat 256 :: 32 word) = 0xFFFFFF00"
      by simp
    ultimately show ?thesis by (simp only: not_False_eq_True)
  qed
  from a b show ?thesis by (rule conjI)
qed

lemmas shs_zb_defs = shs_zb_set_bool_attr_def shs_zb_set_occ_bitmap_def shs_zb_set_ou_delay_ep2_def

lemma shs_cooldown5_eq:
  "shs_cooldown5 = shs_init\<lparr>shs_movement_cooldown_sec := 5\<rparr>"
  by (simp add: shs_cooldown5_def shs_zb_attribute_handler_def shs_cfg_write_msg_def
      shs_cfg_attr_switch_def shs_init_def shs_save_enqueue_def SHS_ATTR_MOVEMENT_COOLDOWN_def
      SHS_COOLDOWN_MAX_SEC_def SHS_EP_LIGHT_def SHS_CL_CFG_ID_def ESP_ZB_ZCL_CLUSTER_ID_ON_OFF_def)

section \<open>Presence signals\<close>

text \<open>
  Claim C1. After every processed sensor-state event the published occupancy flag is to
  equal the published moving flag or the published static flag, also while the cooldown
  holds moving true over a raw byte that reports no target. The code takes occupancy from
  bits 0 and 1 of the raw byte instead: with a cooldown of 5 s, a sample \<^verbatim>\<open>0x01\<close> at
  0 ms and a sample \<^verbatim>\<open>0x00\<close> at 1000 ms leave moving published as true, static as false
  and occupancy as false.
\<close>

theorem C1_occupancy_from_raw_byte:
  "shs_moving_state (shs_sm_run shs_cooldown5 [(0, Sample 0x01), (1000, Sample 0x00)]) \<and>
   \<not> shs_static_state (shs_sm_run shs_cooldown5 [(0, Sample 0x01), (1000, Sample 0x00)]) \<and>
   \<not> shs_occupancy_state (shs_sm_run shs_cooldown5 [(0, Sample 0x01), (1000, Sample 0x00)])"
  by (simp add: shs_cooldown5_eq shs_sm_run_def shs_init_def shs_process_sensor_state_def
      shs_mv_cooldown_tick_def shs_time_reached_def shs_zb_defs Let_def)

text \<open>Without a cooldown the three flags do agree after every event: moving and static
  track their bits and occupancy is their disjunction.\<close>

lemma shs_direct_tracking_occupancy:
  assumes "shs_movement_cooldown_sec g = 0"
  shows "shs_occupancy_state (shs_process_sensor_state now b g) =
         (shs_moving_state (shs_process_sensor_state now b g) \<or>
          shs_static_state (shs_process_sensor_state now b g))"
proof -
  have "(3 :: 8 word) = 1 OR 2" by simp
  then have "b AND 3 = (b AND 1) OR (b AND 2)"
    by (simp only: bit.conj_disj_distrib)
  then have "(b AND 3 \<noteq> 0) = (b AND 1 \<noteq> 0 \<or> b AND 2 \<noteq> 0)"
    by (simp add: or_eq_0_iff)
  then show ?thesis using assms
    by (auto simp add: shs_process_sensor_state_def shs_zb_defs Let_def)
qed

section \<open>Movement cooldown\<close>

text \<open>
  Claim C2 as stated fails. With a cooldown of 5 s and a sample every 2 s, the samples
  at 0 and 2000 ms are positive and keep moving true, the sample at 4000 ms is
  negative, and the tick at 5000 ms, the deadline armed by the rising sample, clears
  moving: 3000 ms after the last positive sample, not 5000 ms.
\<close>

theorem C2_counterexample:
  "shs_moving_state (shs_sm_run shs_cooldown5 [(0, Sample 0x01), (2000, Sample 0x01)]) \<and>
   shs_moving_state (shs_sm_run shs_cooldown5
      [(0, Sample 0x01), (2000, Sample 0x01), (4000, Sample 0x00)]) \<and>
   \<not> shs_moving_state (shs_sm_run shs_cooldown5
      [(0, Sample 0x01), (2000, Sample 0x01), (4000, Sample 0x00), (5000, Tick)])"
  by (simp add: shs_cooldown5_eq shs_sm_run_def shs_init_def shs_process_sensor_state_def
      shs_mv_cooldown_tick_def shs_time_reached_def shs_zb_defs Let_def)

lemma shs_hold_step:
  assumes "shs_movement_cooldown_sec g = c" and "c \<noteq> 0"
    and "shs_moving_state g" and "shs_mv_cooldown_active g"
    and "shs_mv_cooldown_deadline_ms g = dl" and "\<not> shs_time_reached t dl"
  shows "shs_movement_cooldown_sec (shs_sm_step g (t, i)) = c \<and>
         shs_moving_state (shs_sm_step g (t, i)) \<and>
         shs_mv_cooldown_active (shs_sm_step g (t, i)) \<and>
         shs_mv_cooldown_deadline_ms (shs_sm_step g (t, i)) = dl"
  using assms
  by (cases i)
     (simp_all add: shs_process_sensor_state_def shs_mv_cooldown_tick_def shs_zb_defs Let_def)

lemma shs_hold_run:
  assumes "\<forall>x \<in> set ins. \<not> shs_time_reached (fst x) dl"
    and "shs_movement_cooldown_sec g = c" and "c \<noteq> 0"
    and "shs_moving_state g" and "shs_mv_cooldown_active g"
    and "shs_mv_cooldown_deadline_ms g = dl"
  shows "shs_movement_cooldown_sec (shs_sm_run g ins) = c \<and>
         shs_moving_state (shs_sm_run g ins) \<and>
         shs_mv_cooldown_active (shs_sm_run g ins) \<and>
         shs_mv_cooldown_deadline_ms (shs_sm_run g ins) = dl"
  using assms
proof (induction ins arbitrary: g)
  case Nil
  then show ?case by (simp add: shs_sm_run_def)
next
  case (Cons x xs)
  obtain t i where x: "x = (t, i)" by (cases x)
  from Cons.prems have nr: "\<not> shs_time_reached t dl" by (simp add: x)
  note st = shs_hold_step [OF Cons.prems(2) Cons.prems(3) Cons.prems(4) Cons.prems(5)
      Cons.prems(6) nr, of i]
  have "shs_movement_cooldown_sec (shs_sm_run (shs_sm_step g (t, i)) xs) = c \<and>
        shs_moving_state (shs_sm_run (shs_sm_step g (t, i)) xs) \<and>
        shs_mv_cooldown_active (shs_sm_run (shs_sm_step g (t, i)) xs) \<and>
        shs_mv_cooldown_deadline_ms (shs_sm_run (shs_sm_step g (t, i)) xs) = dl"
    using Cons.prems(1) st Cons.prems(3) by (intro Cons.IH) simp_all
  then show ?case by (simp add: shs_sm_run_def x)
qed

lemma shs_rising_edge:
  assumes "shs_movement_cooldown_sec g = c" and "c \<noteq> 0"
    and "\<not> shs_moving_state g" and "\<not> shs_mv_cooldown_active g" and "b AND 1 \<noteq> 0"
  shows "shs_movement_cooldown_sec (shs_process_sensor_state t0 b g) = c \<and>
         shs_moving_state (shs_process_sensor_state t0 b g) \<and>
         shs_mv_cooldown_active (shs_process_sensor_state t0 b g) \<and>
         shs_mv_cooldown_deadline_ms (shs_process_sensor_state t0 b g) = t0 + ucast c * 1000"
  using assms
  by (simp add: shs_process_sensor_state_def shs_zb_defs Let_def)

lemma shs_deadline_step:
  assumes "shs_movement_cooldown_sec g = c" and "c \<noteq> 0"
    and "shs_moving_state g" and "shs_mv_cooldown_active g"
    and "shs_mv_cooldown_deadline_ms g = dl" and "shs_time_reached t dl"
  shows "if (case i of Sample s \<Rightarrow> s AND 1 \<noteq> 0 | Tick \<Rightarrow> shs_last_moving_sample g)
         then shs_moving_state (shs_sm_step g (t, i)) \<and>
              shs_mv_cooldown_active (shs_sm_step g (t, i)) \<and>
              shs_mv_cooldown_deadline_ms (shs_sm_step g (t, i)) = t + ucast c * 1000
         else \<not> shs_moving_state (shs_sm_step g (t, i)) \<and>
              \<not> shs_mv_cooldown_active (shs_sm_step g (t, i))"
  using assms
  by (cases i)
     (simp_all add: shs_process_sensor_state_def shs_mv_cooldown_tick_def shs_zb_defs Let_def)

lemma shs_before_5000:
  assumes "d < 5000"
  shows "\<not> shs_time_reached (t0 + word_of_nat d) (t0 + 5000)"
proof -
  have "(word_of_nat d + word_of_nat (5000 - d) :: 32 word) = 5000"
    using assms by (simp flip: of_nat_add)
  then have e: "t0 + 5000 = (t0 + word_of_nat d) + word_of_nat (5000 - d)"
    by (simp add: add.assoc)
  show ?thesis
    using assms by (subst e) (intro shs_time_reached_before, simp_all)
qed

lemma shs_from_5000:
  assumes "5000 \<le> d" and "d < 5000 + 2 ^ 31"
  shows "shs_time_reached (t0 + word_of_nat d) (t0 + 5000)"
proof -
  have "(5000 + word_of_nat (d - 5000) :: 32 word) = word_of_nat d"
  proof -
    have "(word_of_nat 5000 + word_of_nat (d - 5000) :: 32 word) = word_of_nat d"
      using assms by (simp flip: of_nat_add)
    then show ?thesis by simp
  qed
  then have e: "t0 + word_of_nat d = (t0 + 5000) + word_of_nat (d - 5000)"
    by (simp add: add.assoc)
  show ?thesis
    using assms by (subst e) (intro shs_time_reached_after, simp)
qed

text \<open>
  Claim C2, amended. With cooldown seconds set to 5, a rising moving sample at time
  \<open>t0\<close> (moving not published, no timer active) publishes moving as true and arms the
  deadline \<open>t0 + 5000\<close> ms. Moving then stays true through every sample and tick that
  arrives less than 5000 ms after \<open>t0\<close>, whatever the samples report. At a sample or
  tick \<open>d \<ge> 5000\<close> ms after \<open>t0\<close>, moving transitions to false when the most recent
  raw sample (the sample itself, or the last one before the tick) is negative; when it
  is positive, moving stays true and the deadline is re-armed to 5000 ms after that
  moment. The hold is measured from the rising sample and from each re-arming, not from
  the last positive sample.
\<close>

theorem C2_cooldown_hold_open:
  assumes "shs_movement_cooldown_sec g = 5"
    and "\<not> shs_moving_state g" and "\<not> shs_mv_cooldown_active g"
    and "b AND 1 \<noteq> 0"
    and "\<forall>x \<in> set ins. fst x < 5000"
  shows
   "shs_moving_state (shs_process_sensor_state t0 b g) \<and>
    shs_mv_cooldown_deadline_ms (shs_process_sensor_state t0 b g) = t0 + 5000 \<and>
    shs_moving_state (shs_sm_run (shs_process_sensor_state t0 b g) (shs_sm_after t0 ins)) \<and>
    (\<forall>d i. 5000 \<le> d \<and> d < 5000 + 2 ^ 31 \<longrightarrow>
       (if (case i of Sample s \<Rightarrow> s AND 1 \<noteq> 0
            | Tick \<Rightarrow> shs_last_moving_sample
                (shs_sm_run (shs_process_sensor_state t0 b g) (shs_sm_after t0 ins)))
        then shs_moving_state
               (shs_sm_step (shs_sm_run (shs_process_sensor_state t0 b g) (shs_sm_after t0 ins))
                  (t0 + word_of_nat d, i)) \<and>
             shs_mv_cooldown_deadline_ms
               (shs_sm_step (shs_sm_run (shs_process_sensor_state t0 b g) (shs_sm_after t0 ins))
                  (t0 + word_of_nat d, i)) = t0 + word_of_nat d + 5000
        else \<not> shs_moving_state
               (shs_sm_step (shs_sm_run (shs_process_sensor_state t0 b g) (shs_sm_after t0 ins))
                  (t0 + word_of_nat d, i))))"
proof -
  let ?g1 = "shs_process_sensor_state t0 b g"
  let ?g2 = "shs_sm_run ?g1 (shs_sm_after t0 ins)"
  have c: "(5 :: 16 word) \<noteq> 0" by simp
  have u: "(ucast (5 :: 16 word) :: 32 word) * 1000 = 5000" by simp
  note r = shs_rising_edge [OF assms(1) c assms(2) assms(3) assms(4), of t0, unfolded u]
  have nr: "\<forall>x \<in> set (shs_sm_after t0 ins). \<not> shs_time_reached (fst x) (t0 + 5000)"
    using assms(5) shs_before_5000 by (fastforce simp: shs_sm_after_def)
  have h: "shs_movement_cooldown_sec ?g2 = 5 \<and> shs_moving_state ?g2 \<and>
           shs_mv_cooldown_active ?g2 \<and> shs_mv_cooldown_deadline_ms ?g2 = t0 + 5000"
    using r by (intro shs_hold_run [OF nr]) simp_all
  have e: "\<forall>d i. 5000 \<le> d \<and> d < 5000 + 2 ^ 31 \<longrightarrow>
       (if (case i of Sample s \<Rightarrow> s AND 1 \<noteq> 0 | Tick \<Rightarrow> shs_last_moving_sample ?g2)
        then shs_moving_state (shs_sm_step ?g2 (t0 + word_of_nat d, i)) \<and>
             shs_mv_cooldown_deadline_ms (shs_sm_step ?g2 (t0 + word_of_nat d, i))
               = t0 + word_of_nat d + 5000
        else \<not> shs_moving_state (shs_sm_step ?g2 (t0 + word_of_nat d, i)))"
  proof (intro allI impI)
    fix d :: nat and i
    assume d: "5000 \<le> d \<and> d < 5000 + 2 ^ 31"
    then have tr: "shs_time_reached (t0 + word_of_nat d) (t0 + 5000)"
      by (intro shs_from_5000) simp_all
    from h have h1: "shs_movement_cooldown_sec ?g2 = 5" and h2: "shs_moving_state ?g2"
      and h3: "shs_mv_cooldown_active ?g2" and h4: "shs_mv_cooldown_deadline_ms ?g2 = t0 + 5000"
      by simp_all
    show "(if (case i of Sample s \<Rightarrow> s AND 1 \<noteq> 0 | Tick \<Rightarrow> shs_last_moving_sample ?g2)
        then shs_moving_state (shs_sm_step ?g2 (t0 + word_of_nat d, i)) \<and>
             shs_mv_cooldown_deadline_ms (shs_sm_step ?g2 (t0 + word_of_nat d, i))
               = t0 + word_of_nat d + 5000
        else \<not> shs_moving_state (shs_sm_step ?g2 (t0 + word_of_nat d, i)))"
      using shs_deadline_step [OF h1 c h2 h3 h4 tr, of i, unfolded u]
      by (simp split: if_splits)
  qed
  from r h e show ?thesis by simp
qed

theorem C2_cooldown_hold_open_witness:
  "shs_moving_state (shs_sm_run (shs_process_sensor_state 0 0x01 shs_cooldown5)
      (shs_sm_after 0 [(2000, Sample 0x01), (4000, Sample 0x01), (4500, Sample 0x00)])) \<and>
   \<not> shs_moving_state (shs_sm_step (shs_sm_run (shs_process_sensor_state 0 0x01 shs_cooldown5)
      (shs_sm_after 0 [(2000, Sample 0x01), (4000, Sample 0x01), (4500, Sample 0x00)]))
      (0 + word_of_nat 5000, Tick))"
proof -
  have a1: "shs_movement_cooldown_sec shs_cooldown5 = 5"
    and a2: "\<not> shs_moving_state shs_cooldown5"
    and a3: "\<not> shs_mv_cooldown_active shs_cooldown5"
    by (simp_all add: shs_cooldown5_eq shs_init_def)
  have a4: "(0x01 :: byte) AND 1 \<noteq> 0" by simp
  have a5: "\<forall>x \<in> set [(2000, Sample 0x01), (4000, Sample 0x01), (4500 :: nat, Sample 0x00)].
              fst x < 5000" by simp
  note t = C2_cooldown_hold_open [OF a1 a2 a3 a4 a5, of 0]
  have l: "\<not> shs_last_moving_sample (shs_sm_run (shs_process_sensor_state 0 0x01 shs_cooldown5)
      (shs_sm_after 0 [(2000, Sample 0x01), (4000, Sample 0x01), (4500, Sample 0x00)]))"
    by (simp add: shs_cooldown5_eq shs_sm_run_def shs_sm_after_def shs_init_def
        shs_process_sensor_state_def shs_mv_cooldown_tick_def shs_time_reached_def
        shs_zb_defs Let_def)
  from t have t3: "shs_moving_state (shs_sm_run (shs_process_sensor_state 0 0x01 shs_cooldown5)
      (shs_sm_after 0 [(2000, Sample 0x01), (4000, Sample 0x01), (4500, Sample 0x00)]))"
    by blast
  from t have t4: "5000 \<le> (5000 :: nat) \<and> (5000 :: nat) < 5000 + 2 ^ 31 \<longrightarrow>
       (if (case Tick of Sample s \<Rightarrow> s AND 1 \<noteq> 0
            | Tick \<Rightarrow> shs_last_moving_sample
                (shs_sm_run (shs_process_sensor_state 0 0x01 shs_cooldown5)
                  (shs_sm_after 0 [(2000, Sample 0x01), (4000, Sample 0x01), (4500, Sample 0x00)])))
        then shs_moving_state
               (shs_sm_step (shs_sm_run (shs_process_sensor_state 0 0x01 shs_cooldown5)
                  (shs_sm_after 0 [(2000, Sample 0x01), (4000, Sample 0x01), (4500, Sample 0x00)]))
                  (0 + word_of_nat 5000, Tick)) \<and>
             shs_mv_cooldown_deadline_ms
               (shs_sm_step (shs_sm_run (shs_process_sensor_state 0 0x01 shs_cooldown5)
                  (shs_sm_after 0 [(2000, Sample 0x01), (4000, Sample 0x01), (4500, Sample 0x00)]))
                  (0 + word_of_nat 5000, Tick)) = 0 + word_of_nat 5000 + 5000
        else \<not> shs_moving_state
               (shs_sm_step (shs_sm_run (shs_process_sensor_state 0 0x01 shs_cooldown5)
                  (shs_sm_after 0 [(2000, Sample 0x01), (4000, Sample 0x01), (4500, Sample 0x00)]))
                  (0 + word_of_nat 5000, Tick)))"
    by blast
  from t4 l have "\<not> shs_moving_state
               (shs_sm_step (shs_sm_run (shs_process_sensor_state 0 0x01 shs_cooldown5)
                  (shs_sm_after 0 [(2000, Sample 0x01), (4000, Sample 0x01), (4500, Sample 0x00)]))
                  (0 + word_of_nat 5000, Tick))"
    by simp
  with t3 show ?thesis by (rule conjI)
qed


section \<open>Configuration store\<close>

lemmas shs_hdr_consts =
  SHS_EP_LIGHT_def SHS_EP_OCC_def SHS_CL_CFG_ID_def SHS_ATTR_MOVEMENT_COOLDOWN_def
  SHS_ATTR_OCC_CLEAR_COOLDOWN_def SHS_ATTR_MOVING_SENS_0_10_def SHS_ATTR_STATIC_SENS_0_10_def
  SHS_ATTR_MOVING_MAX_GATE_def SHS_ATTR_STATIC_MAX_GATE_def SHS_COOLDOWN_MAX_SEC_def
  ESP_ZB_ZCL_CLUSTER_ID_ON_OFF_def ESP_ZB_ZCL_ATTR_ON_OFF_ON_OFF_ID_def

lemma shs_handler_cfg_write:
  "shs_zb_attribute_handler now (shs_cfg_write_msg attr v) g = shs_cfg_attr_switch now attr v g"
  by (simp add: shs_zb_attribute_handler_def shs_cfg_write_msg_def shs_hdr_consts)

lemma shs_save_enqueue_fields [simp]:
  "shs_movement_cooldown_sec (shs_save_enqueue t v g) = shs_movement_cooldown_sec g"
  "shs_occupancy_clear_sec (shs_save_enqueue t v g) = shs_occupancy_clear_sec g"
  "shs_moving_sens_0_100 (shs_save_enqueue t v g) = shs_moving_sens_0_100 g"
  "shs_static_sens_0_100 (shs_save_enqueue t v g) = shs_static_sens_0_100 g"
  "shs_moving_max_gate (shs_save_enqueue t v g) = shs_moving_max_gate g"
  "shs_static_max_gate (shs_save_enqueue t v g) = shs_static_max_gate g"
  "shs_sens_mv_0_10 (shs_save_enqueue t v g) = shs_sens_mv_0_10 g"
  "shs_sens_st_0_10 (shs_save_enqueue t v g) = shs_sens_st_0_10 g"
  "shs_moving_state (shs_save_enqueue t v g) = shs_moving_state g"
  "shs_mv_cooldown_active (shs_save_enqueue t v g) = shs_mv_cooldown_active g"
  "shs_mv_cooldown_deadline_ms (shs_save_enqueue t v g) = shs_mv_cooldown_deadline_ms g"
  by (simp_all add: shs_save_enqueue_def split: option.split)

lemma shs_write_cmd_fields [simp]:
  "shs_movement_cooldown_sec (shs_ld2410_write_cmd p g) = shs_movement_cooldown_sec g"
  "shs_occupancy_clear_sec (shs_ld2410_write_cmd p g) = shs_occupancy_clear_sec g"
  "shs_moving_sens_0_100 (shs_ld2410_write_cmd p g) = shs_moving_sens_0_100 g"
  "shs_static_sens_0_100 (shs_ld2410_write_cmd p g) = shs_static_sens_0_100 g"
  "shs_moving_max_gate (shs_ld2410_write_cmd p g) = shs_moving_max_gate g"
  "shs_static_max_gate (shs_ld2410_write_cmd p g) = shs_static_max_gate g"
  "shs_sens_mv_0_10 (shs_ld2410_write_cmd p g) = shs_sens_mv_0_10 g"
  "shs_sens_st_0_10 (shs_ld2410_write_cmd p g) = shs_sens_st_0_10 g"
  "shs_zb_ready (shs_ld2410_write_cmd p g) = shs_zb_ready g"
  by (simp_all add: shs_ld2410_write_cmd_def Let_def)

lemma shs_apply_fields [simp]:
  "shs_movement_cooldown_sec (shs_ld2410_apply_params_all g) = shs_movement_cooldown_sec g"
  "shs_occupancy_clear_sec (shs_ld2410_apply_params_all g) = shs_occupancy_clear_sec g"
  "shs_moving_sens_0_100 (shs_ld2410_apply_params_all g) = shs_moving_sens_0_100 g"
  "shs_static_sens_0_100 (shs_ld2410_apply_params_all g) = shs_static_sens_0_100 g"
  "shs_moving_max_gate (shs_ld2410_apply_params_all g) = shs_moving_max_gate g"
  "shs_static_max_gate (shs_ld2410_apply_params_all g) = shs_static_max_gate g"
  "shs_sens_mv_0_10 (shs_ld2410_apply_params_all g) = shs_sens_mv_0_10 g"
  "shs_sens_st_0_10 (shs_ld2410_apply_params_all g) = shs_sens_st_0_10 g"
  "shs_zb_ready (shs_ld2410_apply_params_all g) = shs_zb_ready g"
  "shs_movement_cooldown_sec (shs_ld2410_apply_global_sensitivity g) = shs_movement_cooldown_sec g"
  "shs_occupancy_clear_sec (shs_ld2410_apply_global_sensitivity g) = shs_occupancy_clear_sec g"
  "shs_moving_sens_0_100 (shs_ld2410_apply_global_sensitivity g) = shs_moving_sens_0_100 g"
  "shs_static_sens_0_100 (shs_ld2410_apply_global_sensitivity g) = shs_static_sens_0_100 g"
  "shs_moving_max_gate (shs_ld2410_apply_global_sensitivity g) = shs_moving_max_gate g"
  "shs_static_max_gate (shs_ld2410_apply_global_sensitivity g) = shs_static_max_gate g"
  "shs_sens_mv_0_10 (shs_ld2410_apply_global_sensitivity g) = shs_sens_mv_0_10 g"
  "shs_sens_st_0_10 (shs_ld2410_apply_global_sensitivity g) = shs_sens_st_0_10 g"
  by (simp_all add: shs_ld2410_apply_params_all_def shs_ld2410_apply_global_sensitivity_def Let_def)

lemma shs_ou_delay_fields [simp]:
  "shs_movement_cooldown_sec (shs_zb_set_ou_delay_ep2 s g) = shs_movement_cooldown_sec g"
  "shs_occupancy_clear_sec (shs_zb_set_ou_delay_ep2 s g) = shs_occupancy_clear_sec g"
  "shs_moving_sens_0_100 (shs_zb_set_ou_delay_ep2 s g) = shs_moving_sens_0_100 g"
  "shs_static_sens_0_100 (shs_zb_set_ou_delay_ep2 s g) = shs_static_sens_0_100 g"
  "shs_moving_max_gate (shs_zb_set_ou_delay_ep2 s g) = shs_moving_max_gate g"
  "shs_static_max_gate (shs_zb_set_ou_delay_ep2 s g) = shs_static_max_gate g"
  "shs_sens_mv_0_10 (shs_zb_set_ou_delay_ep2 s g) = shs_sens_mv_0_10 g"
  "shs_sens_st_0_10 (shs_zb_set_ou_delay_ep2 s g) = shs_sens_st_0_10 g"
  by (simp_all add: shs_zb_set_ou_delay_ep2_def)

lemma shs_switch_cooldown:
  "shs_movement_cooldown_sec (shs_cfg_attr_switch now SHS_ATTR_MOVEMENT_COOLDOWN v g) =
     (if 300 < v then 300 else v)"
  by (simp add: shs_cfg_attr_switch_def Let_def SHS_COOLDOWN_MAX_SEC_def)

lemma shs_switch_occ_clear:
  "shs_occupancy_clear_sec (shs_cfg_attr_switch now SHS_ATTR_OCC_CLEAR_COOLDOWN v g) = v"
  by (simp add: shs_cfg_attr_switch_def Let_def shs_hdr_consts shs_ld2410_apply_no_one_duration_def)

lemma shs_switch_mv_sens:
  "shs_sens_mv_0_10 (shs_cfg_attr_switch now SHS_ATTR_MOVING_SENS_0_10 v g) =
     (if 10 < v then 10 else v) \<and>
   shs_moving_sens_0_100 (shs_cfg_attr_switch now SHS_ATTR_MOVING_SENS_0_10 v g) =
     word_of_nat (unat (if 10 < v then 10 else v) * 10)"
  by (simp add: shs_cfg_attr_switch_def Let_def shs_hdr_consts)

lemma shs_switch_st_sens:
  "shs_sens_st_0_10 (shs_cfg_attr_switch now SHS_ATTR_STATIC_SENS_0_10 v g) =
     (if 10 < v then 10 else v) \<and>
   shs_static_sens_0_100 (shs_cfg_attr_switch now SHS_ATTR_STATIC_SENS_0_10 v g) =
     word_of_nat (unat (if 10 < v then 10 else v) * 10)"
  by (simp add: shs_cfg_attr_switch_def Let_def shs_hdr_consts)

lemma shs_switch_mv_gate:
  "shs_moving_max_gate (shs_cfg_attr_switch now SHS_ATTR_MOVING_MAX_GATE v g) =
     (if 8 < v then 8 else v)"
  by (simp add: shs_cfg_attr_switch_def Let_def shs_hdr_consts)

lemma shs_switch_st_gate:
  "shs_static_max_gate (shs_cfg_attr_switch now SHS_ATTR_STATIC_MAX_GATE v g) =
     (if v < 2 then 2 else if 8 < v then 8 else v)"
  by (simp add: shs_cfg_attr_switch_def Let_def shs_hdr_consts)

lemma sens_times_10_le:
  assumes "(q :: 16 word) \<le> 10"
  shows "unat (word_of_nat (unat q * 10) :: byte) = unat q * 10"
proof -
  from assms have "unat q \<le> 10" by (simp add: word_le_nat_alt)
  then show ?thesis by (subst unat_of_nat) simp
qed

lemma sens_byte_le_100:
  "(word_of_nat (unat (if 10 < (v :: 16 word) then 10 else v) * 10) :: byte) \<le> 100"
proof -
  have "(if 10 < v then 10 else v) \<le> 10" by (simp add: not_less)
  then have "unat (word_of_nat (unat (if 10 < v then 10 else v) * 10) :: byte) \<le> 100"
    by (subst sens_times_10_le) (simp_all add: word_le_nat_alt)
  then show ?thesis by (simp add: word_le_nat_alt)
qed

lemma shs_switch_in_range:
  assumes "shs_cfg_in_range g"
  shows "shs_cfg_in_range (shs_cfg_attr_switch now attr v g)"
proof -
  note b = sens_byte_le_100 [of v]
  note d = shs_cfg_in_range_def shs_cfg_attr_switch_def Let_def shs_hdr_consts
    shs_ld2410_apply_no_one_duration_def not_less
  consider "attr = SHS_ATTR_MOVEMENT_COOLDOWN" | "attr = SHS_ATTR_OCC_CLEAR_COOLDOWN"
    | "attr = SHS_ATTR_MOVING_SENS_0_10" | "attr = SHS_ATTR_STATIC_SENS_0_10"
    | "attr = SHS_ATTR_MOVING_MAX_GATE" | "attr = SHS_ATTR_STATIC_MAX_GATE"
    | "attr \<noteq> SHS_ATTR_MOVEMENT_COOLDOWN \<and> attr \<noteq> SHS_ATTR_OCC_CLEAR_COOLDOWN \<and>
       attr \<noteq> SHS_ATTR_MOVING_SENS_0_10 \<and> attr \<noteq> SHS_ATTR_STATIC_SENS_0_10 \<and>
       attr \<noteq> SHS_ATTR_MOVING_MAX_GATE \<and> attr \<noteq> SHS_ATTR_STATIC_MAX_GATE"
    by blast
  then show ?thesis
  proof cases
    case 1
    then show ?thesis using assms by (simp add: d)
  next
    case 2
    then show ?thesis using assms by (simp add: d)
  next
    case 3
    then show ?thesis using assms b by (simp add: d)
  next
    case 4
    then show ?thesis using assms b by (simp add: d)
  next
    case 5
    then show ?thesis using assms by (simp add: d)
  next
    case 6
    then show ?thesis using assms by (simp add: d)
  next
    case 7
    then show ?thesis using assms by (simp add: shs_cfg_attr_switch_def)
  qed
qed

lemma shs_handler_in_range:
  assumes "shs_cfg_in_range g"
  shows "shs_cfg_in_range (shs_zb_attribute_handler now m g)"
proof (cases m)
  case None
  then show ?thesis using assms by (simp add: shs_zb_attribute_handler_def)
next
  case (Some x)
  have l: "shs_cfg_in_range (g\<lparr>light_power := b\<rparr>)" for b
    using assms by (simp add: shs_cfg_in_range_def)
  note s = shs_switch_in_range [OF assms]
  from Some show ?thesis using assms l s by (simp add: shs_zb_attribute_handler_def)
qed

lemmas shs_nvs_keys =
  SHS_NVS_KEY_MV_CD_def SHS_NVS_KEY_OCC_CD_def SHS_NVS_KEY_MV_SENS_def SHS_NVS_KEY_ST_SENS_def
  SHS_NVS_KEY_MV_GATE_def SHS_NVS_KEY_ST_GATE_def

lemma shs_sync_fields [simp]:
  "shs_movement_cooldown_sec (shs_cfg_sync_sens_proxies g) = shs_movement_cooldown_sec g"
  "shs_occupancy_clear_sec (shs_cfg_sync_sens_proxies g) = shs_occupancy_clear_sec g"
  "shs_moving_sens_0_100 (shs_cfg_sync_sens_proxies g) = shs_moving_sens_0_100 g"
  "shs_static_sens_0_100 (shs_cfg_sync_sens_proxies g) = shs_static_sens_0_100 g"
  "shs_moving_max_gate (shs_cfg_sync_sens_proxies g) = shs_moving_max_gate g"
  "shs_static_max_gate (shs_cfg_sync_sens_proxies g) = shs_static_max_gate g"
  by (simp_all add: shs_cfg_sync_sens_proxies_def Let_def)

lemma shs_sync_proxies:
  "shs_sens_mv_0_10 (shs_cfg_sync_sens_proxies g) =
     (if 10 < (word_of_nat ((unat (shs_moving_sens_0_100 g) + 5) div 10) :: 16 word) then 10
      else word_of_nat ((unat (shs_moving_sens_0_100 g) + 5) div 10))"
  "shs_sens_st_0_10 (shs_cfg_sync_sens_proxies g) =
     (if 10 < (word_of_nat ((unat (shs_static_sens_0_100 g) + 5) div 10) :: 16 word) then 10
      else word_of_nat ((unat (shs_static_sens_0_100 g) + 5) div 10))"
  by (simp_all add: shs_cfg_sync_sens_proxies_def Let_def)

lemma case_option_same: "(case x of None \<Rightarrow> a | Some y \<Rightarrow> a) = a"
  by (cases x) simp_all

lemma shs_load_fields:
  assumes "nvs_ro_ok h"
  shows "shs_movement_cooldown_sec (shs_cfg_load_from_nvs h g) =
           (case nvs_get_u16 h SHS_NVS_KEY_MV_CD of
              Some u \<Rightarrow> (if SHS_COOLDOWN_MAX_SEC < u then SHS_COOLDOWN_MAX_SEC else u)
            | None \<Rightarrow> shs_movement_cooldown_sec g)"
    and "shs_occupancy_clear_sec (shs_cfg_load_from_nvs h g) =
           (case nvs_get_u16 h SHS_NVS_KEY_OCC_CD of
              Some u \<Rightarrow> u | None \<Rightarrow> shs_occupancy_clear_sec g)"
    and "shs_moving_sens_0_100 (shs_cfg_load_from_nvs h g) =
           (case nvs_get_u8 h SHS_NVS_KEY_MV_SENS of
              Some u \<Rightarrow> (if 100 < u then 100 else u) | None \<Rightarrow> shs_moving_sens_0_100 g)"
    and "shs_static_sens_0_100 (shs_cfg_load_from_nvs h g) =
           (case nvs_get_u8 h SHS_NVS_KEY_ST_SENS of
              Some u \<Rightarrow> (if 100 < u then 100 else u) | None \<Rightarrow> shs_static_sens_0_100 g)"
    and "shs_moving_max_gate (shs_cfg_load_from_nvs h g) =
           (case nvs_get_u8 h SHS_NVS_KEY_MV_GATE of
              Some u \<Rightarrow> (if 8 < u then 8 else ucast u) | None \<Rightarrow> shs_moving_max_gate g)"
    and "shs_static_max_gate (shs_cfg_load_from_nvs h g) =
           (case nvs_get_u8 h SHS_NVS_KEY_ST_GATE of
              Some u \<Rightarrow> ucast (if u < 2 then 2 else if 8 < u then 8 else u)
            | None \<Rightarrow> shs_static_max_gate g)"
  using assms
  by (simp_all add: shs_cfg_load_from_nvs_def Let_def case_option_same
      option.case_distrib [of shs_movement_cooldown_sec]
      option.case_distrib [of shs_occupancy_clear_sec]
      option.case_distrib [of shs_moving_sens_0_100]
      option.case_distrib [of shs_static_sens_0_100]
      option.case_distrib [of shs_moving_max_gate]
      option.case_distrib [of shs_static_max_gate] cong: option.case_cong)

lemma nvs_stored_get [simp]:
  "nvs_ro_ok (nvs_stored key v h)"
  "nvs_get_u16 (nvs_stored key (NvsU16 w) h) key = Some w"
  "nvs_get_u8 (nvs_stored key (NvsU8 b) h) key = Some b"
  by (simp_all add: nvs_stored_def nvs_get_u16_def nvs_get_u8_def)

lemma unat_ucast_byte: "unat (ucast (x :: byte) :: 16 word) = unat x"
proof -
  have "unat x < 2 ^ LENGTH(8)" by (rule unsigned_less)
  then have "unat x < 65536" by simp
  then show ?thesis by (simp add: unsigned_ucast_eq take_bit_nat_eq_self_iff)
qed

lemma ucast_byte_le_iff:
  "((ucast (x :: byte) :: 16 word) \<le> ucast (y :: byte)) = (x \<le> y)"
  by (simp add: word_le_nat_alt unat_ucast_byte)

lemma ucast_gate_range:
  "2 \<le> (ucast (if (u :: byte) < 2 then 2 else if 8 < u then 8 else u) :: 16 word) \<and>
   (ucast (if u < 2 then 2 else if 8 < u then 8 else u) :: 16 word) \<le> 8"
proof -
  have "(ucast (2 :: byte) :: 16 word) \<le> ucast (if u < 2 then 2 else if 8 < u then 8 else u)"
    by (subst ucast_byte_le_iff) (simp add: not_less)
  moreover have "(ucast (if u < 2 then 2 else if 8 < u then 8 else u) :: 16 word) \<le> ucast (8 :: byte)"
    by (subst ucast_byte_le_iff) (auto simp add: not_less)
  ultimately show ?thesis by simp
qed

lemma ucast_mv_gate_range:
  "(if 8 < (u :: byte) then 8 else (ucast u :: 16 word)) \<le> 8"
proof -
  have "\<not> 8 < u \<Longrightarrow> (ucast u :: 16 word) \<le> ucast (8 :: byte)"
    by (subst ucast_byte_le_iff) (simp add: not_less)
  then show ?thesis by auto
qed

lemma shs_load_is_sync:
  assumes "nvs_ro_ok h"
  shows "\<exists>g'. shs_cfg_load_from_nvs h g = shs_cfg_sync_sens_proxies g'"
  using assms by (simp add: shs_cfg_load_from_nvs_def Let_def) blast

lemma shs_load_proxies:
  assumes "nvs_ro_ok h"
  shows "shs_sens_mv_0_10 (shs_cfg_load_from_nvs h g) =
     (if 10 < (word_of_nat ((unat (shs_moving_sens_0_100 (shs_cfg_load_from_nvs h g)) + 5) div 10) :: 16 word)
      then 10
      else word_of_nat ((unat (shs_moving_sens_0_100 (shs_cfg_load_from_nvs h g)) + 5) div 10))"
   and "shs_sens_st_0_10 (shs_cfg_load_from_nvs h g) =
     (if 10 < (word_of_nat ((unat (shs_static_sens_0_100 (shs_cfg_load_from_nvs h g)) + 5) div 10) :: 16 word)
      then 10
      else word_of_nat ((unat (shs_static_sens_0_100 (shs_cfg_load_from_nvs h g)) + 5) div 10))"
proof -
  obtain g' where e: "shs_cfg_load_from_nvs h g = shs_cfg_sync_sens_proxies g'"
    using shs_load_is_sync [OF assms] by blast
  show "shs_sens_mv_0_10 (shs_cfg_load_from_nvs h g) =
     (if 10 < (word_of_nat ((unat (shs_moving_sens_0_100 (shs_cfg_load_from_nvs h g)) + 5) div 10) :: 16 word)
      then 10
      else word_of_nat ((unat (shs_moving_sens_0_100 (shs_cfg_load_from_nvs h g)) + 5) div 10))"
    unfolding e by (simp only: shs_sync_proxies shs_sync_fields)
  show "shs_sens_st_0_10 (shs_cfg_load_from_nvs h g) =
     (if 10 < (word_of_nat ((unat (shs_static_sens_0_100 (shs_cfg_load_from_nvs h g)) + 5) div 10) :: 16 word)
      then 10
      else word_of_nat ((unat (shs_static_sens_0_100 (shs_cfg_load_from_nvs h g)) + 5) div 10))"
    unfolding e by (simp only: shs_sync_proxies shs_sync_fields)
qed

lemma shs_load_in_range:
  assumes "shs_cfg_in_range g"
  shows "shs_cfg_in_range (shs_cfg_load_from_nvs h g)"
proof (cases "nvs_ro_ok h")
  case False
  then show ?thesis using assms by (simp add: shs_cfg_load_from_nvs_def)
next
  case True
  note f = shs_load_fields [OF True, of g]
  have "shs_movement_cooldown_sec (shs_cfg_load_from_nvs h g) \<le> 300"
    using assms by (simp add: f(1) shs_cfg_in_range_def SHS_COOLDOWN_MAX_SEC_def not_less
        split: option.split)
  moreover have "shs_moving_sens_0_100 (shs_cfg_load_from_nvs h g) \<le> 100"
    using assms by (simp add: f(3) shs_cfg_in_range_def not_less split: option.split)
  moreover have "shs_static_sens_0_100 (shs_cfg_load_from_nvs h g) \<le> 100"
    using assms by (simp add: f(4) shs_cfg_in_range_def not_less split: option.split)
  moreover have "shs_moving_max_gate (shs_cfg_load_from_nvs h g) \<le> 8"
    using assms ucast_mv_gate_range
    by (simp add: f(5) shs_cfg_in_range_def split: option.split)
  moreover have "2 \<le> shs_static_max_gate (shs_cfg_load_from_nvs h g) \<and>
                 shs_static_max_gate (shs_cfg_load_from_nvs h g) \<le> 8"
    using assms ucast_gate_range
    by (simp add: f(6) shs_cfg_in_range_def split: option.split)
  moreover have "shs_sens_mv_0_10 (shs_cfg_load_from_nvs h g) \<le> 10"
    by (subst shs_load_proxies(1) [OF True]) (simp add: not_less)
  moreover have "shs_sens_st_0_10 (shs_cfg_load_from_nvs h g) \<le> 10"
    by (subst shs_load_proxies(2) [OF True]) (simp add: not_less)
  ultimately show ?thesis by (simp add: shs_cfg_in_range_def)
qed

lemma shs_round_tenth: "round (real p / 10) = int ((p + 5) div 10)"
proof -
  have "real p / 10 + 1 / 2 = real (p + 5) / real 10"
    by (simp add: field_simps)
  then show ?thesis
    unfolding round_def by (simp only: floor_divide_of_nat_eq)
qed

lemma shs_proxy_value:
  assumes "n \<le> 100"
  shows "(if 10 < (word_of_nat ((n + 5) div 10) :: 16 word) then 10
          else word_of_nat ((n + 5) div 10)) = (word_of_nat ((n + 5) div 10) :: 16 word)"
    and "unat (word_of_nat ((n + 5) div 10) :: 16 word) = (n + 5) div 10"
    and "(word_of_nat ((n + 5) div 10) :: 16 word) \<le> 10"
proof -
  from assms have k: "(n + 5) div 10 \<le> 10" by simp
  then show u: "unat (word_of_nat ((n + 5) div 10) :: 16 word) = (n + 5) div 10"
    by (simp add: unat_of_nat)
  from k u show le: "(word_of_nat ((n + 5) div 10) :: 16 word) \<le> 10"
    by (simp add: word_le_nat_alt)
  from le show "(if 10 < (word_of_nat ((n + 5) div 10) :: 16 word) then 10
          else word_of_nat ((n + 5) div 10)) = (word_of_nat ((n + 5) div 10) :: 16 word)"
    by (simp add: not_less [symmetric])
qed

lemma shs_load_primary_mv:
  assumes "unat p \<le> 100"
  shows "shs_moving_sens_0_100 (shs_cfg_load_from_nvs (nvs_stored SHS_NVS_KEY_MV_SENS (NvsU8 p) h) g) = p"
    and "int (unat (shs_sens_mv_0_10
            (shs_cfg_load_from_nvs (nvs_stored SHS_NVS_KEY_MV_SENS (NvsU8 p) h) g))) =
         round (real (unat p) / 10)"
    and "shs_sens_mv_0_10
            (shs_cfg_load_from_nvs (nvs_stored SHS_NVS_KEY_MV_SENS (NvsU8 p) h) g) \<le> 10"
proof -
  let ?h = "nvs_stored SHS_NVS_KEY_MV_SENS (NvsU8 p) h"
  have ok: "nvs_ro_ok ?h" by simp
  from assms have "\<not> 100 < p" by (simp add: word_less_nat_alt)
  then show pr: "shs_moving_sens_0_100 (shs_cfg_load_from_nvs ?h g) = p"
    by (simp add: shs_load_fields(3) [OF ok])
  note px = shs_load_proxies(1) [OF ok, of g, unfolded pr]
  note v = shs_proxy_value [OF assms]
  show "int (unat (shs_sens_mv_0_10 (shs_cfg_load_from_nvs ?h g))) = round (real (unat p) / 10)"
    by (simp only: px v shs_round_tenth)
  show "shs_sens_mv_0_10 (shs_cfg_load_from_nvs ?h g) \<le> 10"
    by (simp only: px v)
qed

lemma shs_load_primary_st:
  assumes "unat p \<le> 100"
  shows "shs_static_sens_0_100 (shs_cfg_load_from_nvs (nvs_stored SHS_NVS_KEY_ST_SENS (NvsU8 p) h) g) = p"
    and "int (unat (shs_sens_st_0_10
            (shs_cfg_load_from_nvs (nvs_stored SHS_NVS_KEY_ST_SENS (NvsU8 p) h) g))) =
         round (real (unat p) / 10)"
    and "shs_sens_st_0_10
            (shs_cfg_load_from_nvs (nvs_stored SHS_NVS_KEY_ST_SENS (NvsU8 p) h) g) \<le> 10"
proof -
  let ?h = "nvs_stored SHS_NVS_KEY_ST_SENS (NvsU8 p) h"
  have ok: "nvs_ro_ok ?h" by simp
  from assms have "\<not> 100 < p" by (simp add: word_less_nat_alt)
  then show pr: "shs_static_sens_0_100 (shs_cfg_load_from_nvs ?h g) = p"
    by (simp add: shs_load_fields(4) [OF ok])
  note px = shs_load_proxies(2) [OF ok, of g, unfolded pr]
  note v = shs_proxy_value [OF assms]
  show "int (unat (shs_sens_st_0_10 (shs_cfg_load_from_nvs ?h g))) = round (real (unat p) / 10)"
    by (simp only: px v shs_round_tenth)
  show "shs_sens_st_0_10 (shs_cfg_load_from_nvs ?h g) \<le> 10"
    by (simp only: px v)
qed

text \<open>
  Claim C8. The two sensitivity representations stay consistent under both write paths.
  The primary 0..100 value is set when the stored value is loaded: for every \<open>p\<close> in
  0..100 the load leaves the primary at \<open>p\<close> and the 0..10 proxy at \<open>round (p / 10)\<close>
  (half rounds up), which is at most 10. The proxy is set by the attribute write: for
  every \<open>q\<close> in 0..10 the write leaves the proxy at \<open>q\<close> and the primary at \<open>q * 10\<close>.
  Both hold for the moving and for the static sensitivity, and each write updates both
  representations.
\<close>

theorem C8_sensitivity_representations:
  "(unat p \<le> 100 \<longrightarrow>
      shs_moving_sens_0_100
        (shs_cfg_load_from_nvs (nvs_stored SHS_NVS_KEY_MV_SENS (NvsU8 p) h) g) = p \<and>
      int (unat (shs_sens_mv_0_10
        (shs_cfg_load_from_nvs (nvs_stored SHS_NVS_KEY_MV_SENS (NvsU8 p) h) g))) =
        round (real (unat p) / 10) \<and>
      shs_sens_mv_0_10
        (shs_cfg_load_from_nvs (nvs_stored SHS_NVS_KEY_MV_SENS (NvsU8 p) h) g) \<le> 10 \<and>
      shs_static_sens_0_100
        (shs_cfg_load_from_nvs (nvs_stored SHS_NVS_KEY_ST_SENS (NvsU8 p) h) g) = p \<and>
      int (unat (shs_sens_st_0_10
        (shs_cfg_load_from_nvs (nvs_stored SHS_NVS_KEY_ST_SENS (NvsU8 p) h) g))) =
        round (real (unat p) / 10) \<and>
      shs_sens_st_0_10
        (shs_cfg_load_from_nvs (nvs_stored SHS_NVS_KEY_ST_SENS (NvsU8 p) h) g) \<le> 10) \<and>
   (q \<le> 10 \<longrightarrow>
      shs_sens_mv_0_10
        (shs_zb_attribute_handler now (shs_cfg_write_msg SHS_ATTR_MOVING_SENS_0_10 q) g) = q \<and>
      unat (shs_moving_sens_0_100
        (shs_zb_attribute_handler now (shs_cfg_write_msg SHS_ATTR_MOVING_SENS_0_10 q) g)) =
        unat q * 10 \<and>
      shs_sens_st_0_10
        (shs_zb_attribute_handler now (shs_cfg_write_msg SHS_ATTR_STATIC_SENS_0_10 q) g) = q \<and>
      unat (shs_static_sens_0_100
        (shs_zb_attribute_handler now (shs_cfg_write_msg SHS_ATTR_STATIC_SENS_0_10 q) g)) =
        unat q * 10)"
proof (intro conjI impI)
  assume p: "unat p \<le> 100"
  show "shs_moving_sens_0_100
        (shs_cfg_load_from_nvs (nvs_stored SHS_NVS_KEY_MV_SENS (NvsU8 p) h) g) = p"
    by (rule shs_load_primary_mv(1) [OF p])
  show "int (unat (shs_sens_mv_0_10
        (shs_cfg_load_from_nvs (nvs_stored SHS_NVS_KEY_MV_SENS (NvsU8 p) h) g))) =
        round (real (unat p) / 10)"
    by (rule shs_load_primary_mv(2) [OF p])
  show "shs_sens_mv_0_10
        (shs_cfg_load_from_nvs (nvs_stored SHS_NVS_KEY_MV_SENS (NvsU8 p) h) g) \<le> 10"
    by (rule shs_load_primary_mv(3) [OF p])
  show "shs_static_sens_0_100
        (shs_cfg_load_from_nvs (nvs_stored SHS_NVS_KEY_ST_SENS (NvsU8 p) h) g) = p"
    by (rule shs_load_primary_st(1) [OF p])
  show "int (unat (shs_sens_st_0_10
        (shs_cfg_load_from_nvs (nvs_stored SHS_NVS_KEY_ST_SENS (NvsU8 p) h) g))) =
        round (real (unat p) / 10)"
    by (rule shs_load_primary_st(2) [OF p])
  show "shs_sens_st_0_10
        (shs_cfg_load_from_nvs (nvs_stored SHS_NVS_KEY_ST_SENS (NvsU8 p) h) g) \<le> 10"
    by (rule shs_load_primary_st(3) [OF p])
next
  assume q: "q \<le> 10"
  then have nq: "\<not> 10 < q" by (simp add: not_less)
  show "shs_sens_mv_0_10
        (shs_zb_attribute_handler now (shs_cfg_write_msg SHS_ATTR_MOVING_SENS_0_10 q) g) = q"
    using nq by (simp add: shs_handler_cfg_write shs_switch_mv_sens)
  show "unat (shs_moving_sens_0_100
        (shs_zb_attribute_handler now (shs_cfg_write_msg SHS_ATTR_MOVING_SENS_0_10 q) g)) =
        unat q * 10"
    using nq sens_times_10_le [OF q] by (simp add: shs_handler_cfg_write shs_switch_mv_sens)
  show "shs_sens_st_0_10
        (shs_zb_attribute_handler now (shs_cfg_write_msg SHS_ATTR_STATIC_SENS_0_10 q) g) = q"
    using nq by (simp add: shs_handler_cfg_write shs_switch_st_sens)
  show "unat (shs_static_sens_0_100
        (shs_zb_attribute_handler now (shs_cfg_write_msg SHS_ATTR_STATIC_SENS_0_10 q) g)) =
        unat q * 10"
    using nq sens_times_10_le [OF q] by (simp add: shs_handler_cfg_write shs_switch_st_sens)
qed

theorem C8_sensitivity_representations_witness:
  "shs_moving_sens_0_100
     (shs_cfg_load_from_nvs (nvs_stored SHS_NVS_KEY_MV_SENS (NvsU8 37) nvs_empty) shs_init) = 37 \<and>
   unat (shs_sens_mv_0_10
     (shs_cfg_load_from_nvs (nvs_stored SHS_NVS_KEY_MV_SENS (NvsU8 37) nvs_empty) shs_init)) = 4 \<and>
   shs_sens_st_0_10
     (shs_zb_attribute_handler 0 (shs_cfg_write_msg SHS_ATTR_STATIC_SENS_0_10 7) shs_init) = 7 \<and>
   shs_static_sens_0_100
     (shs_zb_attribute_handler 0 (shs_cfg_write_msg SHS_ATTR_STATIC_SENS_0_10 7) shs_init) = 70"
proof -
  have p: "unat (37 :: byte) \<le> 100" by simp
  have q: "(7 :: 16 word) \<le> 10" by simp
  note t = C8_sensitivity_representations [of 37 nvs_empty shs_init 7 0]
  from t p have a: "shs_moving_sens_0_100
     (shs_cfg_load_from_nvs (nvs_stored SHS_NVS_KEY_MV_SENS (NvsU8 37) nvs_empty) shs_init) = 37"
    by blast
  from t p have r1: "int (unat (shs_sens_mv_0_10
     (shs_cfg_load_from_nvs (nvs_stored SHS_NVS_KEY_MV_SENS (NvsU8 37) nvs_empty) shs_init))) =
     round (real (unat (37 :: byte)) / 10)"
    by blast
  have r2: "round (real (unat (37 :: byte)) / 10) = 4"
    by (simp add: round_def)
  have b: "unat (shs_sens_mv_0_10
     (shs_cfg_load_from_nvs (nvs_stored SHS_NVS_KEY_MV_SENS (NvsU8 37) nvs_empty) shs_init)) = 4"
    using r1 [unfolded r2] by linarith
  from t q have c: "shs_sens_st_0_10
     (shs_zb_attribute_handler 0 (shs_cfg_write_msg SHS_ATTR_STATIC_SENS_0_10 7) shs_init) = 7"
    by blast
  from t q have "unat (shs_static_sens_0_100
     (shs_zb_attribute_handler 0 (shs_cfg_write_msg SHS_ATTR_STATIC_SENS_0_10 7) shs_init)) =
     unat (7 :: 16 word) * 10"
    by blast
  then have d: "shs_static_sens_0_100
     (shs_zb_attribute_handler 0 (shs_cfg_write_msg SHS_ATTR_STATIC_SENS_0_10 7) shs_init) = 70"
    by (simp add: word_unat_eq_iff)
  from a b c d show ?thesis by simp
qed

text \<open>
  Claim C7. Every configuration write clamps to the field's range before storing, from
  the attribute protocol and from the load of the durable store alike: a configuration
  within its ranges stays within them under any attribute message and any load; each
  written field holds the clamped value; and in particular, by either path, a static
  max gate of 0 or 1 is stored as 2 and 9 as 8, a moving max gate of 9 as 8, an
  occupancy-clear time of 400 unchanged, and a movement cooldown of 400 as 300.
\<close>

theorem C7_config_writes_clamped:
  "(shs_cfg_in_range g \<longrightarrow>
      shs_cfg_in_range (shs_zb_attribute_handler now m g) \<and>
      shs_cfg_in_range (shs_cfg_load_from_nvs h g)) \<and>
   shs_movement_cooldown_sec
     (shs_zb_attribute_handler now (shs_cfg_write_msg SHS_ATTR_MOVEMENT_COOLDOWN v) g) =
     (if 300 < v then 300 else v) \<and>
   shs_occupancy_clear_sec
     (shs_zb_attribute_handler now (shs_cfg_write_msg SHS_ATTR_OCC_CLEAR_COOLDOWN v) g) = v \<and>
   shs_moving_max_gate
     (shs_zb_attribute_handler now (shs_cfg_write_msg SHS_ATTR_MOVING_MAX_GATE v) g) =
     (if 8 < v then 8 else v) \<and>
   shs_static_max_gate
     (shs_zb_attribute_handler now (shs_cfg_write_msg SHS_ATTR_STATIC_MAX_GATE v) g) =
     (if v < 2 then 2 else if 8 < v then 8 else v) \<and>
   shs_movement_cooldown_sec
     (shs_cfg_load_from_nvs (nvs_stored SHS_NVS_KEY_MV_CD (NvsU16 v) h) g) =
     (if 300 < v then 300 else v) \<and>
   shs_occupancy_clear_sec
     (shs_cfg_load_from_nvs (nvs_stored SHS_NVS_KEY_OCC_CD (NvsU16 v) h) g) = v \<and>
   shs_moving_max_gate
     (shs_cfg_load_from_nvs (nvs_stored SHS_NVS_KEY_MV_GATE (NvsU8 u) h) g) =
     (if 8 < u then 8 else ucast u) \<and>
   shs_static_max_gate
     (shs_cfg_load_from_nvs (nvs_stored SHS_NVS_KEY_ST_GATE (NvsU8 u) h) g) =
     ucast (if u < 2 then 2 else if 8 < u then 8 else u) \<and>
   shs_static_max_gate
     (shs_zb_attribute_handler now (shs_cfg_write_msg SHS_ATTR_STATIC_MAX_GATE 0) g) = 2 \<and>
   shs_static_max_gate
     (shs_zb_attribute_handler now (shs_cfg_write_msg SHS_ATTR_STATIC_MAX_GATE 1) g) = 2 \<and>
   shs_static_max_gate
     (shs_zb_attribute_handler now (shs_cfg_write_msg SHS_ATTR_STATIC_MAX_GATE 9) g) = 8 \<and>
   shs_moving_max_gate
     (shs_zb_attribute_handler now (shs_cfg_write_msg SHS_ATTR_MOVING_MAX_GATE 9) g) = 8 \<and>
   shs_occupancy_clear_sec
     (shs_zb_attribute_handler now (shs_cfg_write_msg SHS_ATTR_OCC_CLEAR_COOLDOWN 400) g) = 400 \<and>
   shs_movement_cooldown_sec
     (shs_zb_attribute_handler now (shs_cfg_write_msg SHS_ATTR_MOVEMENT_COOLDOWN 400) g) = 300 \<and>
   shs_static_max_gate
     (shs_cfg_load_from_nvs (nvs_stored SHS_NVS_KEY_ST_GATE (NvsU8 0) h) g) = 2 \<and>
   shs_static_max_gate
     (shs_cfg_load_from_nvs (nvs_stored SHS_NVS_KEY_ST_GATE (NvsU8 1) h) g) = 2 \<and>
   shs_static_max_gate
     (shs_cfg_load_from_nvs (nvs_stored SHS_NVS_KEY_ST_GATE (NvsU8 9) h) g) = 8 \<and>
   shs_moving_max_gate
     (shs_cfg_load_from_nvs (nvs_stored SHS_NVS_KEY_MV_GATE (NvsU8 9) h) g) = 8 \<and>
   shs_occupancy_clear_sec
     (shs_cfg_load_from_nvs (nvs_stored SHS_NVS_KEY_OCC_CD (NvsU16 400) h) g) = 400 \<and>
   shs_movement_cooldown_sec
     (shs_cfg_load_from_nvs (nvs_stored SHS_NVS_KEY_MV_CD (NvsU16 400) h) g) = 300"
proof -
  have r: "shs_cfg_in_range g \<longrightarrow>
      shs_cfg_in_range (shs_zb_attribute_handler now m g) \<and>
      shs_cfg_in_range (shs_cfg_load_from_nvs h g)"
    using shs_handler_in_range shs_load_in_range by blast
  have ok: "\<And>k x. nvs_ro_ok (nvs_stored k x h)" by simp
  note l = shs_load_fields [OF ok]
  have w: "\<And>attr x. shs_zb_attribute_handler now (shs_cfg_write_msg attr x) g =
             shs_cfg_attr_switch now attr x g"
    by (rule shs_handler_cfg_write)
  show ?thesis
    apply (intro conjI)
    apply (rule r)
    apply (simp_all only: w shs_switch_cooldown shs_switch_occ_clear shs_switch_mv_gate
        shs_switch_st_gate)
    apply (simp_all add: l SHS_COOLDOWN_MAX_SEC_def)
    done
qed

theorem C7_config_writes_clamped_witness:
  "shs_cfg_in_range shs_init \<and>
   shs_cfg_in_range
     (shs_zb_attribute_handler 0 (shs_cfg_write_msg SHS_ATTR_STATIC_MAX_GATE 0) shs_init) \<and>
   shs_static_max_gate
     (shs_zb_attribute_handler 0 (shs_cfg_write_msg SHS_ATTR_STATIC_MAX_GATE 0) shs_init) = 2 \<and>
   shs_cfg_in_range
     (shs_cfg_load_from_nvs (nvs_stored SHS_NVS_KEY_MV_CD (NvsU16 400) nvs_empty) shs_init) \<and>
   shs_movement_cooldown_sec
     (shs_cfg_load_from_nvs (nvs_stored SHS_NVS_KEY_MV_CD (NvsU16 400) nvs_empty) shs_init) = 300"
proof -
  have i: "shs_cfg_in_range shs_init"
    by (simp add: shs_cfg_in_range_def shs_init_def)
  note t = C7_config_writes_clamped [where g = shs_init and now = 0
      and m = "shs_cfg_write_msg SHS_ATTR_STATIC_MAX_GATE 0"
      and h = "nvs_stored SHS_NVS_KEY_MV_CD (NvsU16 400) nvs_empty"]
  note t2 = C7_config_writes_clamped [where g = shs_init and now = 0 and h = nvs_empty]
  from t i have a: "shs_cfg_in_range
     (shs_zb_attribute_handler 0 (shs_cfg_write_msg SHS_ATTR_STATIC_MAX_GATE 0) shs_init)"
    by blast
  from t i have b: "shs_cfg_in_range
     (shs_cfg_load_from_nvs (nvs_stored SHS_NVS_KEY_MV_CD (NvsU16 400) nvs_empty) shs_init)"
    by blast
  from t have c: "shs_static_max_gate
     (shs_zb_attribute_handler 0 (shs_cfg_write_msg SHS_ATTR_STATIC_MAX_GATE 0) shs_init) = 2"
    by blast
  from t2 have d: "shs_movement_cooldown_sec
     (shs_cfg_load_from_nvs (nvs_stored SHS_NVS_KEY_MV_CD (NvsU16 400) nvs_empty) shs_init) = 300"
    by blast
  from i a b c d show ?thesis by simp
qed

lemma shs_switch_cooldown_arm:
  assumes "shs_movement_cooldown_sec g = 0" and "v \<noteq> 0"
    and "shs_moving_state g" and "\<not> shs_mv_cooldown_active g"
  shows "shs_mv_cooldown_active (shs_cfg_attr_switch now SHS_ATTR_MOVEMENT_COOLDOWN v g) \<and>
         shs_mv_cooldown_deadline_ms (shs_cfg_attr_switch now SHS_ATTR_MOVEMENT_COOLDOWN v g) =
           now + ucast (if 300 < v then 300 else v) * 1000"
  using assms
  by (simp add: shs_cfg_attr_switch_def Let_def SHS_COOLDOWN_MAX_SEC_def)

lemma shs_switch_cooldown_zero:
  "shs_movement_cooldown_sec (shs_cfg_attr_switch now SHS_ATTR_MOVEMENT_COOLDOWN 0 g) = 0 \<and>
   \<not> shs_mv_cooldown_active (shs_cfg_attr_switch now SHS_ATTR_MOVEMENT_COOLDOWN 0 g)"
  by (simp add: shs_cfg_attr_switch_def Let_def SHS_COOLDOWN_MAX_SEC_def)

lemma shs_process_cooldown_sec:
  "shs_movement_cooldown_sec (shs_process_sensor_state t b g) = shs_movement_cooldown_sec g"
  by (simp add: shs_process_sensor_state_def shs_mv_cooldown_tick_def shs_zb_defs Let_def)

lemma shs_direct_tracking_moving:
  assumes "shs_movement_cooldown_sec g = 0" and "\<not> shs_mv_cooldown_active g"
  shows "shs_moving_state (shs_process_sensor_state t b g) = (b AND 1 \<noteq> 0) \<and>
         \<not> shs_mv_cooldown_active (shs_process_sensor_state t b g) \<and>
         shs_mv_cooldown_tick t' (shs_process_sensor_state t b g) =
           shs_process_sensor_state t b g"
proof -
  have m: "shs_moving_state (shs_process_sensor_state t b g) = (b AND 1 \<noteq> 0)"
    using assms(1) by (simp add: shs_process_sensor_state_def shs_zb_defs Let_def)
  have a: "\<not> shs_mv_cooldown_active (shs_process_sensor_state t b g)"
    using assms by (simp add: shs_process_sensor_state_def shs_zb_defs Let_def)
  have "shs_movement_cooldown_sec (shs_process_sensor_state t b g) = 0"
    using assms(1) by (simp only: shs_process_cooldown_sec)
  then have k: "shs_mv_cooldown_tick t' (shs_process_sensor_state t b g) =
           shs_process_sensor_state t b g"
    by (simp add: shs_mv_cooldown_tick_def)
  from m a k show ?thesis by simp
qed

text \<open>
  Claim C6. A write of a nonzero value to the movement cooldown while the cooldown is
  zero, moving is published and no timer is active arms the timer at once, with the
  deadline at \<open>now\<close> plus the stored cooldown seconds (the written value, at most 300),
  in milliseconds. A write of zero leaves the cooldown at zero and no timer active; the
  next raw sample then sets the published moving flag to its moving bit, arms nothing,
  and a later tick changes nothing.
\<close>

theorem C6_cooldown_config_write:
  "(shs_movement_cooldown_sec g = 0 \<and> v \<noteq> 0 \<and> shs_moving_state g \<and>
    \<not> shs_mv_cooldown_active g \<longrightarrow>
      shs_mv_cooldown_active
        (shs_zb_attribute_handler now (shs_cfg_write_msg SHS_ATTR_MOVEMENT_COOLDOWN v) g) \<and>
      shs_mv_cooldown_deadline_ms
        (shs_zb_attribute_handler now (shs_cfg_write_msg SHS_ATTR_MOVEMENT_COOLDOWN v) g) =
        now + ucast (shs_movement_cooldown_sec
                (shs_zb_attribute_handler now
                   (shs_cfg_write_msg SHS_ATTR_MOVEMENT_COOLDOWN v) g)) * 1000 \<and>
      shs_movement_cooldown_sec
        (shs_zb_attribute_handler now (shs_cfg_write_msg SHS_ATTR_MOVEMENT_COOLDOWN v) g) =
        (if 300 < v then 300 else v)) \<and>
   shs_movement_cooldown_sec
     (shs_zb_attribute_handler now (shs_cfg_write_msg SHS_ATTR_MOVEMENT_COOLDOWN 0) g) = 0 \<and>
   \<not> shs_mv_cooldown_active
     (shs_zb_attribute_handler now (shs_cfg_write_msg SHS_ATTR_MOVEMENT_COOLDOWN 0) g) \<and>
   shs_moving_state
     (shs_process_sensor_state t b
        (shs_zb_attribute_handler now (shs_cfg_write_msg SHS_ATTR_MOVEMENT_COOLDOWN 0) g)) =
     (b AND 1 \<noteq> 0) \<and>
   \<not> shs_mv_cooldown_active
     (shs_process_sensor_state t b
        (shs_zb_attribute_handler now (shs_cfg_write_msg SHS_ATTR_MOVEMENT_COOLDOWN 0) g)) \<and>
   shs_mv_cooldown_tick t'
     (shs_process_sensor_state t b
        (shs_zb_attribute_handler now (shs_cfg_write_msg SHS_ATTR_MOVEMENT_COOLDOWN 0) g)) =
     shs_process_sensor_state t b
        (shs_zb_attribute_handler now (shs_cfg_write_msg SHS_ATTR_MOVEMENT_COOLDOWN 0) g)"
proof -
  let ?w = "shs_zb_attribute_handler now (shs_cfg_write_msg SHS_ATTR_MOVEMENT_COOLDOWN v) g"
  let ?z = "shs_zb_attribute_handler now (shs_cfg_write_msg SHS_ATTR_MOVEMENT_COOLDOWN 0) g"
  have arm: "shs_movement_cooldown_sec g = 0 \<and> v \<noteq> 0 \<and> shs_moving_state g \<and>
      \<not> shs_mv_cooldown_active g \<longrightarrow>
      shs_mv_cooldown_active ?w \<and>
      shs_mv_cooldown_deadline_ms ?w = now + ucast (shs_movement_cooldown_sec ?w) * 1000 \<and>
      shs_movement_cooldown_sec ?w = (if 300 < v then 300 else v)"
    using shs_switch_cooldown_arm [of g v now]
    by (simp add: shs_handler_cfg_write shs_switch_cooldown)
  have z: "shs_movement_cooldown_sec ?z = 0" "\<not> shs_mv_cooldown_active ?z"
    using shs_switch_cooldown_zero [of now g] by (simp_all add: shs_handler_cfg_write)
  note d = shs_direct_tracking_moving [OF z, of t b t']
  from arm z d show ?thesis by blast
qed

theorem C6_cooldown_config_write_witness:
  "shs_movement_cooldown_sec shs_moving_no_cooldown = 0 \<and>
   shs_moving_state shs_moving_no_cooldown \<and>
   \<not> shs_mv_cooldown_active shs_moving_no_cooldown \<and>
   shs_mv_cooldown_active
     (shs_zb_attribute_handler 100 (shs_cfg_write_msg SHS_ATTR_MOVEMENT_COOLDOWN 5)
        shs_moving_no_cooldown) \<and>
   shs_mv_cooldown_deadline_ms
     (shs_zb_attribute_handler 100 (shs_cfg_write_msg SHS_ATTR_MOVEMENT_COOLDOWN 5)
        shs_moving_no_cooldown) = 5100"
proof -
  have a: "shs_movement_cooldown_sec shs_moving_no_cooldown = 0"
    and b: "shs_moving_state shs_moving_no_cooldown"
    and c: "\<not> shs_mv_cooldown_active shs_moving_no_cooldown"
    by (simp_all add: shs_moving_no_cooldown_def shs_sm_run_def shs_init_def
        shs_process_sensor_state_def shs_zb_defs Let_def)
  have v: "(5 :: 16 word) \<noteq> 0" by simp
  note t = C6_cooldown_config_write [where g = shs_moving_no_cooldown and v = 5 and now = 100]
  from t a b c v have d: "shs_mv_cooldown_active
     (shs_zb_attribute_handler 100 (shs_cfg_write_msg SHS_ATTR_MOVEMENT_COOLDOWN 5)
        shs_moving_no_cooldown)"
    by blast
  from t a b c v have e1: "shs_mv_cooldown_deadline_ms
     (shs_zb_attribute_handler 100 (shs_cfg_write_msg SHS_ATTR_MOVEMENT_COOLDOWN 5)
        shs_moving_no_cooldown) =
     100 + ucast (shs_movement_cooldown_sec
        (shs_zb_attribute_handler 100 (shs_cfg_write_msg SHS_ATTR_MOVEMENT_COOLDOWN 5)
           shs_moving_no_cooldown)) * 1000"
    by blast
  from t a b c v have e2: "shs_movement_cooldown_sec
        (shs_zb_attribute_handler 100 (shs_cfg_write_msg SHS_ATTR_MOVEMENT_COOLDOWN 5)
           shs_moving_no_cooldown) = (if 300 < (5 :: 16 word) then 300 else 5)"
    by blast
  have e: "shs_mv_cooldown_deadline_ms
     (shs_zb_attribute_handler 100 (shs_cfg_write_msg SHS_ATTR_MOVEMENT_COOLDOWN 5)
        shs_moving_no_cooldown) = 5100"
    unfolding e1 e2 by simp
  from a b c d e show ?thesis by simp
qed



section \<open>Persistence pipeline\<close>

lemma shs_save_rw_ok [simp]:
  "nvs_rw_ok (shs_cfg_save_u8 k v h) = nvs_rw_ok h"
  "nvs_rw_ok (shs_cfg_save_u16 k v16 h) = nvs_rw_ok h"
  by (simp_all add: shs_cfg_save_u8_def shs_cfg_save_u16_def)

lemma shs_save_writes:
  "nvs_rw_ok h \<Longrightarrow> nvs_writes (shs_cfg_save_u8 k v h) = nvs_writes h @ [(k, NvsU8 v)]"
  "nvs_rw_ok h \<Longrightarrow> nvs_writes (shs_cfg_save_u16 k v16 h) = nvs_writes h @ [(k, NvsU16 v16)]"
  by (simp_all add: shs_cfg_save_u8_def shs_cfg_save_u16_def)

lemmas shs_flush_steps =
  shs_flush_mv_sens_def shs_flush_st_sens_def shs_flush_mv_gate_def shs_flush_st_gate_def

lemma shs_recv_rw_ok [simp]:
  "nvs_rw_ok (snd (shs_save_worker_recv p wh)) = nvs_rw_ok (snd wh)"
  by (simp add: shs_save_worker_recv_def Let_def split: option.split shs_save_evt_t.split)

lemma shs_flush_step_rw_ok [simp]:
  "nvs_rw_ok (snd (shs_flush_mv_sens D now wh)) = nvs_rw_ok (snd wh)"
  "nvs_rw_ok (snd (shs_flush_st_sens D now wh)) = nvs_rw_ok (snd wh)"
  "nvs_rw_ok (snd (shs_flush_mv_gate D now wh)) = nvs_rw_ok (snd wh)"
  "nvs_rw_ok (snd (shs_flush_st_gate D now wh)) = nvs_rw_ok (snd wh)"
  by (simp_all add: shs_flush_steps)

lemma shs_flush_rw_ok [simp]:
  "nvs_rw_ok (snd (shs_save_worker_flush D now wh)) = nvs_rw_ok (snd wh)"
  by (simp add: shs_save_worker_flush_def)

lemma shs_pass_rw_ok [simp]:
  "nvs_rw_ok (snd (shs_save_worker_pass D wh p)) = nvs_rw_ok (snd wh)"
  by (simp add: shs_save_worker_pass_def)

lemma shs_flush_mv_sens_view:
  assumes "nvs_rw_ok (snd wh)" and "F \<noteq> SHS_SAVE_IMMEDIATE_U16"
  shows "shs_field_view F (shs_flush_mv_sens D now wh) =
     (if F = SHS_SAVE_DEBOUNCE_SENS_MOVE then shs_flushed F D now wh else shs_field_view F wh)"
  using assms
  by (cases F)
     (simp_all add: shs_flush_mv_sens_def shs_flushed_def shs_field_view_def
       shs_field_writes_def shs_save_writes shs_nvs_keys)

lemma shs_flush_st_sens_view:
  assumes "nvs_rw_ok (snd wh)" and "F \<noteq> SHS_SAVE_IMMEDIATE_U16"
  shows "shs_field_view F (shs_flush_st_sens D now wh) =
     (if F = SHS_SAVE_DEBOUNCE_SENS_STATIC then shs_flushed F D now wh else shs_field_view F wh)"
  using assms
  by (cases F)
     (simp_all add: shs_flush_st_sens_def shs_flushed_def shs_field_view_def
       shs_field_writes_def shs_save_writes shs_nvs_keys)

lemma shs_flush_mv_gate_view:
  assumes "nvs_rw_ok (snd wh)" and "F \<noteq> SHS_SAVE_IMMEDIATE_U16"
  shows "shs_field_view F (shs_flush_mv_gate D now wh) =
     (if F = SHS_SAVE_DEBOUNCE_GATE_MOVE then shs_flushed F D now wh else shs_field_view F wh)"
  using assms
  by (cases F)
     (simp_all add: shs_flush_mv_gate_def shs_flushed_def shs_field_view_def
       shs_field_writes_def shs_save_writes shs_nvs_keys)

lemma shs_flush_st_gate_view:
  assumes "nvs_rw_ok (snd wh)" and "F \<noteq> SHS_SAVE_IMMEDIATE_U16"
  shows "shs_field_view F (shs_flush_st_gate D now wh) =
     (if F = SHS_SAVE_DEBOUNCE_GATE_STATIC then shs_flushed F D now wh else shs_field_view F wh)"
  using assms
  by (cases F)
     (simp_all add: shs_flush_st_gate_def shs_flushed_def shs_field_view_def
       shs_field_writes_def shs_save_writes shs_nvs_keys)

lemma shs_flushed_cong:
  "shs_field_view F wh1 = shs_field_view F wh2 \<Longrightarrow>
   shs_flushed F D now wh1 = shs_flushed F D now wh2"
  by (simp add: shs_flushed_def shs_field_view_def)

lemma shs_flush_view:
  assumes "nvs_rw_ok (snd wh)" and "F \<noteq> SHS_SAVE_IMMEDIATE_U16"
  shows "shs_field_view F (shs_save_worker_flush D now wh) = shs_flushed F D now wh"
proof -
  let ?a = "shs_flush_mv_sens D now wh"
  let ?b = "shs_flush_st_sens D now ?a"
  let ?c = "shs_flush_mv_gate D now ?b"
  have oa: "nvs_rw_ok (snd ?a)" and ob: "nvs_rw_ok (snd ?b)" and oc: "nvs_rw_ok (snd ?c)"
    using assms(1) by simp_all
  note va = shs_flush_mv_sens_view [OF assms(1) assms(2), of D now]
  note vb = shs_flush_st_sens_view [OF oa assms(2), of D now]
  note vc = shs_flush_mv_gate_view [OF ob assms(2), of D now]
  note vd = shs_flush_st_gate_view [OF oc assms(2), of D now]
  show ?thesis
  proof (cases F)
    case SHS_SAVE_IMMEDIATE_U16
    with assms(2) show ?thesis by simp
  next
    case SHS_SAVE_DEBOUNCE_SENS_MOVE
    then show ?thesis
      unfolding shs_save_worker_flush_def using va vb vc vd by simp
  next
    case SHS_SAVE_DEBOUNCE_SENS_STATIC
    then have "shs_field_view F ?a = shs_field_view F wh" using va by simp
    then have "shs_flushed F D now ?a = shs_flushed F D now wh" by (rule shs_flushed_cong)
    then show ?thesis
      unfolding shs_save_worker_flush_def using SHS_SAVE_DEBOUNCE_SENS_STATIC vb vc vd by simp
  next
    case SHS_SAVE_DEBOUNCE_GATE_MOVE
    then have "shs_field_view F ?b = shs_field_view F wh" using va vb by simp
    then have "shs_flushed F D now ?b = shs_flushed F D now wh" by (rule shs_flushed_cong)
    then show ?thesis
      unfolding shs_save_worker_flush_def using SHS_SAVE_DEBOUNCE_GATE_MOVE vc vd by simp
  next
    case SHS_SAVE_DEBOUNCE_GATE_STATIC
    then have "shs_field_view F ?c = shs_field_view F wh" using va vb vc by simp
    then have "shs_flushed F D now ?c = shs_flushed F D now wh" by (rule shs_flushed_cong)
    then show ?thesis
      unfolding shs_save_worker_flush_def using SHS_SAVE_DEBOUNCE_GATE_STATIC vd by simp
  qed
qed

lemma shs_recv_view_other:
  assumes "nvs_rw_ok (snd wh)" and "F \<noteq> SHS_SAVE_IMMEDIATE_U16" and "\<not> shs_is_req F p"
  shows "shs_field_view F (shs_save_worker_recv p wh) = shs_field_view F wh"
proof (cases "sp_msg p")
  case None
  then show ?thesis by (simp add: shs_save_worker_recv_def Let_def)
next
  case (Some m)
  with assms(3) have ne: "msg_type m \<noteq> F" by (simp add: shs_is_req_def)
  show ?thesis
  proof (cases "msg_type m")
    case SHS_SAVE_IMMEDIATE_U16
    with Some assms(1) assms(2) show ?thesis
      by (cases F)
         (simp_all add: shs_save_worker_recv_def Let_def shs_field_view_def shs_field_writes_def
           shs_save_writes shs_nvs_keys)
  next
    case SHS_SAVE_DEBOUNCE_SENS_MOVE
    with Some ne assms(2) show ?thesis
      by (cases F)
         (simp_all add: shs_save_worker_recv_def Let_def shs_field_view_def)
  next
    case SHS_SAVE_DEBOUNCE_SENS_STATIC
    with Some ne assms(2) show ?thesis
      by (cases F)
         (simp_all add: shs_save_worker_recv_def Let_def shs_field_view_def)
  next
    case SHS_SAVE_DEBOUNCE_GATE_MOVE
    with Some ne assms(2) show ?thesis
      by (cases F)
         (simp_all add: shs_save_worker_recv_def Let_def shs_field_view_def)
  next
    case SHS_SAVE_DEBOUNCE_GATE_STATIC
    with Some ne assms(2) show ?thesis
      by (cases F)
         (simp_all add: shs_save_worker_recv_def Let_def shs_field_view_def)
  qed
qed

lemma shs_recv_view_req:
  assumes "F \<noteq> SHS_SAVE_IMMEDIATE_U16" and "sp_msg p = Some m" and "msg_type m = F"
  shows "shs_field_view F (shs_save_worker_recv p wh) =
         (True, sp_tick_recv p, ucast (msg_u16 m), shs_field_writes F (snd wh))"
  using assms
  by (cases F)
     (simp_all add: shs_save_worker_recv_def Let_def shs_field_view_def)

lemma shs_pass_view_req:
  assumes "nvs_rw_ok (snd wh)" and "F \<noteq> SHS_SAVE_IMMEDIATE_U16"
    and "sp_msg p = Some m" and "msg_type m = F"
    and "sp_tick_now p - sp_tick_recv p < D"
  shows "shs_field_view F (shs_save_worker_pass D wh p) =
         (True, sp_tick_recv p, ucast (msg_u16 m), shs_field_writes F (snd wh))"
proof -
  let ?r = "shs_save_worker_recv p wh"
  have ok: "nvs_rw_ok (snd ?r)" using assms(1) by simp
  note r = shs_recv_view_req [OF assms(2) assms(3) assms(4), of wh]
  have "shs_flushed F D (sp_tick_now p) ?r = shs_field_view F ?r"
    using r assms(5) by (simp add: shs_flushed_def shs_field_view_def not_le)
  then show ?thesis
    unfolding shs_save_worker_pass_def shs_flush_view [OF ok assms(2)] using r by simp
qed

lemma shs_pass_view_other:
  assumes "nvs_rw_ok (snd wh)" and "F \<noteq> SHS_SAVE_IMMEDIATE_U16" and "\<not> shs_is_req F p"
  shows "shs_field_view F (shs_save_worker_pass D wh p) = shs_flushed F D (sp_tick_now p) wh"
proof -
  let ?r = "shs_save_worker_recv p wh"
  have ok: "nvs_rw_ok (snd ?r)" using assms(1) by simp
  have "shs_field_view F ?r = shs_field_view F wh"
    by (rule shs_recv_view_other [OF assms])
  then have "shs_flushed F D (sp_tick_now p) ?r = shs_flushed F D (sp_tick_now p) wh"
    by (rule shs_flushed_cong)
  then show ?thesis
    unfolding shs_save_worker_pass_def shs_flush_view [OF ok assms(2)] .
qed

lemma shs_run_rw_ok [simp]:
  "nvs_rw_ok (snd (shs_save_worker_run D wh ps)) = nvs_rw_ok (snd wh)"
  by (induction ps arbitrary: wh) (simp_all add: shs_save_worker_run_def)

lemma shs_run_Cons:
  "shs_save_worker_run D wh (p # ps) = shs_save_worker_run D (shs_save_worker_pass D wh p) ps"
  by (simp add: shs_save_worker_run_def)

lemma shs_run_append:
  "shs_save_worker_run D wh (ps @ qs) = shs_save_worker_run D (shs_save_worker_run D wh ps) qs"
  by (simp add: shs_save_worker_run_def)

text \<open>During a burst the field stays pending, holds the latest value and stamp, and
  nothing is written under its key.\<close>

lemma shs_burst_view:
  assumes "nvs_rw_ok (snd wh)" and "F \<noteq> SHS_SAVE_IMMEDIATE_U16"
    and "shs_field_view F wh = (True, l, x, ws)"
    and "shs_quiet_lt D F l ps"
  shows "shs_field_view F (shs_save_worker_run D wh ps) =
         (case shs_last_req F ps of
            Some r \<Rightarrow> (True, snd r, ucast (fst r), ws)
          | None \<Rightarrow> (True, l, x, ws))"
  using assms
proof (induction ps arbitrary: wh l x)
  case Nil
  then show ?case by (simp add: shs_save_worker_run_def)
next
  case (Cons p ps)
  let ?wh = "shs_save_worker_pass D wh p"
  have ok: "nvs_rw_ok (snd ?wh)" using Cons.prems(1) by simp
  have ws: "shs_field_writes F (snd wh) = ws" using Cons.prems(3) by (simp add: shs_field_view_def)
  show ?case
  proof (cases "shs_is_req F p")
    case True
    then obtain m where m: "sp_msg p = Some m" "msg_type m = F"
      by (auto simp: shs_is_req_def split: option.splits)
    from Cons.prems(4) True have q: "sp_tick_now p - sp_tick_recv p < D"
      and qs: "shs_quiet_lt D F (sp_tick_recv p) ps" by simp_all
    have v: "shs_field_view F ?wh = (True, sp_tick_recv p, ucast (msg_u16 m), ws)"
      using shs_pass_view_req [OF Cons.prems(1) Cons.prems(2) m q] ws by simp
    note ih = Cons.IH [OF ok Cons.prems(2) v qs]
    show ?thesis
      unfolding shs_run_Cons ih using m by (simp split: option.split)
  next
    case False
    from Cons.prems(4) False have q: "sp_tick_now p - l < D"
      and qs: "shs_quiet_lt D F l ps" by simp_all
    have "shs_flushed F D (sp_tick_now p) wh = shs_field_view F wh"
      using Cons.prems(3) q by (simp add: shs_flushed_def shs_field_view_def not_le)
    then have v: "shs_field_view F ?wh = (True, l, x, ws)"
      using shs_pass_view_other [OF Cons.prems(1) Cons.prems(2) False, of D] Cons.prems(3)
      by simp
    note ih = Cons.IH [OF ok Cons.prems(2) v qs]
    have n: "(case sp_msg p of None \<Rightarrow> None
              | Some m \<Rightarrow> if msg_type m = F then Some (msg_u16 m, sp_tick_recv p) else None) = None"
      using False by (auto simp add: shs_is_req_def split: option.splits)
    show ?thesis
      unfolding shs_run_Cons ih by (simp add: n split: option.split)
  qed
qed

text \<open>Once nothing is pending, passes without a request for the field leave its view
  alone.\<close>

lemma shs_idle_view:
  assumes "nvs_rw_ok (snd wh)" and "F \<noteq> SHS_SAVE_IMMEDIATE_U16"
    and "\<not> shs_field_pend F (fst wh)"
    and "\<forall>q \<in> set qs. \<not> shs_is_req F q"
  shows "shs_field_view F (shs_save_worker_run D wh qs) = shs_field_view F wh"
  using assms
proof (induction qs arbitrary: wh)
  case Nil
  then show ?case by (simp add: shs_save_worker_run_def)
next
  case (Cons q qs)
  let ?wh = "shs_save_worker_pass D wh q"
  have ok: "nvs_rw_ok (snd ?wh)" using Cons.prems(1) by simp
  from Cons.prems(4) have nq: "\<not> shs_is_req F q" and rest: "\<forall>q \<in> set qs. \<not> shs_is_req F q"
    by simp_all
  have "shs_flushed F D (sp_tick_now q) wh = shs_field_view F wh"
    using Cons.prems(3) by (simp add: shs_flushed_def)
  then have v: "shs_field_view F ?wh = shs_field_view F wh"
    using shs_pass_view_other [OF Cons.prems(1) Cons.prems(2) nq, of D] by simp
  then have np: "\<not> shs_field_pend F (fst ?wh)"
    using Cons.prems(3) by (simp add: shs_field_view_def)
  show ?case
    unfolding shs_run_Cons using Cons.IH [OF ok Cons.prems(2) np rest] v by simp
qed

text \<open>Independence: a pass that carries no request for the field treats it exactly
  as the same pass without any message would.\<close>

lemma shs_pass_independent:
  assumes "nvs_rw_ok (snd wh)" and "F \<noteq> SHS_SAVE_IMMEDIATE_U16" and "\<not> shs_is_req F p"
  shows "shs_field_view F (shs_save_worker_pass D wh p) =
         shs_field_view F (shs_save_worker_pass D wh (p\<lparr>sp_msg := None\<rparr>))"
proof -
  have n: "\<not> shs_is_req F (p\<lparr>sp_msg := None\<rparr>)" by (simp add: shs_is_req_def)
  show ?thesis
    unfolding shs_pass_view_other [OF assms] shs_pass_view_other [OF assms(1) assms(2) n]
    by simp
qed

text \<open>
  Claim C9. Take a debounced field \<open>F\<close> (moving or static sensitivity, moving or static
  gate) and a store that opens. Let a run of worker passes start with a request for
  \<open>F\<close> and contain any number of further requests for \<open>F\<close>, with messages for other
  fields and passes without a message in between, such that at the flush test of each
  pass fewer than \<open>D\<close> ticks (the debounce window) have gone by since the latest request
  for \<open>F\<close>. Then nothing is written under the key of \<open>F\<close> during the run and \<open>F\<close> stays
  pending. The first later pass at which the field has been quiet for at least \<open>D\<close>
  ticks writes the value of the last request, once; the passes after it that carry no
  request for \<open>F\<close> write nothing more under its key. So the \<open>N \<ge> 1\<close> requests end in
  exactly one write, of the last value. The fields debounce independently: a pass
  that carries a message for another field (or an immediate save) treats \<open>F\<close> exactly
  as the same pass without a message.
\<close>

theorem C9_debounce_coalescing:
  assumes "F \<noteq> SHS_SAVE_IMMEDIATE_U16" and "nvs_rw_ok h"
    and "shs_is_req F p0"
    and "shs_quiet_lt D F (sp_tick_recv p0) (p0 # ps)"
    and "shs_last_req F (p0 # ps) = Some (v, t)"
    and "\<not> shs_is_req F pf" and "D \<le> sp_tick_now pf - t"
    and "\<forall>q \<in> set qs. \<not> shs_is_req F q"
  shows
   "shs_field_writes F (snd (shs_save_worker_run D (w, h) (p0 # ps))) = shs_field_writes F h \<and>
    shs_field_pend F (fst (shs_save_worker_run D (w, h) (p0 # ps))) \<and>
    shs_field_writes F (snd (shs_save_worker_run D (w, h) ((p0 # ps) @ [pf]))) =
      shs_field_writes F h @ [(shs_field_key F, NvsU8 (ucast v))] \<and>
    shs_field_writes F (snd (shs_save_worker_run D (w, h) ((p0 # ps) @ pf # qs))) =
      shs_field_writes F h @ [(shs_field_key F, NvsU8 (ucast v))] \<and>
    \<not> shs_field_pend F (fst (shs_save_worker_run D (w, h) ((p0 # ps) @ pf # qs))) \<and>
    (\<forall>wh p. nvs_rw_ok (snd wh) \<and> \<not> shs_is_req F p \<longrightarrow>
       shs_field_view F (shs_save_worker_pass D wh p) =
       shs_field_view F (shs_save_worker_pass D wh (p\<lparr>sp_msg := None\<rparr>)))"
proof -
  let ?wh0 = "(w, h)"
  let ?wh1 = "shs_save_worker_pass D ?wh0 p0"
  let ?wh2 = "shs_save_worker_run D ?wh0 (p0 # ps)"
  let ?wh3 = "shs_save_worker_run D ?wh0 ((p0 # ps) @ [pf])"
  let ?wh4 = "shs_save_worker_run D ?wh0 ((p0 # ps) @ pf # qs)"
  have ok0: "nvs_rw_ok (snd ?wh0)" using assms(2) by simp
  have ok1: "nvs_rw_ok (snd ?wh1)" using ok0 by simp
  have ok2: "nvs_rw_ok (snd ?wh2)" using ok0 by simp
  have ok3: "nvs_rw_ok (snd ?wh3)" using ok0 by simp
  obtain m where m: "sp_msg p0 = Some m" "msg_type m = F"
    using assms(3) by (auto simp: shs_is_req_def split: option.splits)
  from assms(4) assms(3) have q0: "sp_tick_now p0 - sp_tick_recv p0 < D"
    and qs: "shs_quiet_lt D F (sp_tick_recv p0) ps" by simp_all
  have v1: "shs_field_view F ?wh1 =
            (True, sp_tick_recv p0, ucast (msg_u16 m), shs_field_writes F h)"
    using shs_pass_view_req [OF ok0 assms(1) m q0] by simp
  have lr: "(case shs_last_req F ps of Some r \<Rightarrow> r | None \<Rightarrow> (msg_u16 m, sp_tick_recv p0)) = (v, t)"
    using assms(5) m by (simp split: option.splits)
  have v2: "shs_field_view F ?wh2 = (True, t, ucast v, shs_field_writes F h)"
    unfolding shs_run_Cons shs_burst_view [OF ok1 assms(1) v1 qs]
    using lr by (simp split: option.splits)
  have f: "shs_flushed F D (sp_tick_now pf) ?wh2 =
           (False, t, ucast v, shs_field_writes F h @ [(shs_field_key F, NvsU8 (ucast v))])"
    using v2 assms(7) by (simp add: shs_flushed_def shs_field_view_def)
  have e3: "?wh3 = shs_save_worker_pass D ?wh2 pf"
    unfolding shs_run_append by (simp add: shs_save_worker_run_def)
  have v3: "shs_field_view F ?wh3 =
           (False, t, ucast v, shs_field_writes F h @ [(shs_field_key F, NvsU8 (ucast v))])"
    unfolding e3 shs_pass_view_other [OF ok2 assms(1) assms(6)] by (rule f)
  then have np: "\<not> shs_field_pend F (fst ?wh3)" by (simp add: shs_field_view_def)
  have e4: "?wh4 = shs_save_worker_run D ?wh3 qs"
    by (simp add: shs_save_worker_run_def)
  have v4: "shs_field_view F ?wh4 =
           (False, t, ucast v, shs_field_writes F h @ [(shs_field_key F, NvsU8 (ucast v))])"
    unfolding e4 shs_idle_view [OF ok3 assms(1) np assms(8)] by (rule v3)
  have ind: "\<forall>wh p. nvs_rw_ok (snd wh) \<and> \<not> shs_is_req F p \<longrightarrow>
       shs_field_view F (shs_save_worker_pass D wh p) =
       shs_field_view F (shs_save_worker_pass D wh (p\<lparr>sp_msg := None\<rparr>))"
    using shs_pass_independent [OF _ assms(1)] by blast
  from v2 v3 v4 ind show ?thesis
    by (simp add: shs_field_view_def)
qed

theorem C9_debounce_coalescing_witness:
  "shs_field_writes SHS_SAVE_DEBOUNCE_SENS_MOVE
     (snd (shs_save_worker_run 50 (shs_save_worker_init shs_init, nvs_empty)
        ((shs_pass_at (shs_req SHS_SAVE_DEBOUNCE_SENS_MOVE 30) 100 #
          [shs_pass_at (shs_req SHS_SAVE_DEBOUNCE_SENS_MOVE 40) 110,
           shs_pass_at None 115,
           shs_pass_at (shs_req SHS_SAVE_DEBOUNCE_GATE_MOVE 5) 120,
           shs_pass_at (shs_req SHS_SAVE_DEBOUNCE_SENS_MOVE 50) 130,
           shs_pass_at None 170]) @
          shs_pass_at None 180 # [shs_pass_at None 185, shs_pass_at None 300]))) =
   [(''mv_sens'', NvsU8 50)]"
proof -
  let ?F = "SHS_SAVE_DEBOUNCE_SENS_MOVE"
  let ?p0 = "shs_pass_at (shs_req ?F 30) 100"
  let ?ps = "[shs_pass_at (shs_req ?F 40) 110, shs_pass_at None 115,
              shs_pass_at (shs_req SHS_SAVE_DEBOUNCE_GATE_MOVE 5) 120,
              shs_pass_at (shs_req ?F 50) 130, shs_pass_at None 170]"
  let ?pf = "shs_pass_at None 180"
  let ?qs = "[shs_pass_at None 185, shs_pass_at None 300]"
  have a1: "?F \<noteq> SHS_SAVE_IMMEDIATE_U16" by simp
  have a2: "nvs_rw_ok nvs_empty" by (simp add: nvs_empty_def)
  have a3: "shs_is_req ?F ?p0" by (simp add: shs_is_req_def shs_pass_at_def shs_req_def)
  have a4: "shs_quiet_lt 50 ?F (sp_tick_recv ?p0) (?p0 # ?ps)"
    by (simp add: shs_is_req_def shs_pass_at_def shs_req_def)
  have a5: "shs_last_req ?F (?p0 # ?ps) = Some (50, 130)"
    by (simp add: shs_pass_at_def shs_req_def)
  have a6: "\<not> shs_is_req ?F ?pf" by (simp add: shs_is_req_def shs_pass_at_def)
  have a7: "(50 :: 32 word) \<le> sp_tick_now ?pf - 130" by (simp add: shs_pass_at_def)
  have a8: "\<forall>q \<in> set ?qs. \<not> shs_is_req ?F q" by (simp add: shs_is_req_def shs_pass_at_def)
  note t = C9_debounce_coalescing [OF a1 a2 a3 a4 a5 a6 a7 a8, of "shs_save_worker_init shs_init"]
  have e: "shs_field_writes ?F nvs_empty = []"
    by (simp add: shs_field_writes_def nvs_empty_def)
  have k: "shs_field_key ?F = ''mv_sens''" by (simp add: SHS_NVS_KEY_MV_SENS_def)
  have u: "(ucast (50 :: 16 word) :: byte) = 50" by simp
  from t have "shs_field_writes ?F
     (snd (shs_save_worker_run 50 (shs_save_worker_init shs_init, nvs_empty)
        ((?p0 # ?ps) @ ?pf # ?qs))) =
     shs_field_writes ?F nvs_empty @ [(shs_field_key ?F, NvsU8 (ucast (50 :: 16 word)))]"
    by blast
  then show ?thesis unfolding e k u by simp
qed


section \<open>Frame decoder\<close>

lemmas shs_sizes = SHS_UART_ACC_BUF_SIZE_def SHS_UART_BUF_SIZE_def SHS_LD2410_MIN_FRAME_BYTES_def

lemma shs_pending_length: "shs_acc_ok a \<Longrightarrow> length (shs_pending a) = acc_len a"
  by (simp add: shs_pending_def shs_acc_ok_def min_def) arith

lemma shs_pending_nth:
  "shs_acc_ok a \<Longrightarrow> j < acc_len a \<Longrightarrow> acc a ! (start a + j) = shs_pending a ! j"
  by (simp add: shs_pending_def shs_acc_ok_def)

lemma shs_hdr_at_pending:
  assumes "shs_acc_ok a" and "j + 4 \<le> acc_len a"
  shows "shs_hdr_at (acc a) (start a + j) = shs_hdr_at (shs_pending a) j"
proof -
  have "acc a ! (start a + j + i) = shs_pending a ! (j + i)" if "i < 4" for i
    using shs_pending_nth [OF assms(1), of "j + i"] assms(2) that by (simp add: add.assoc)
  from this [of 0] this [of 1] this [of 2] this [of 3] show ?thesis
    by (simp add: shs_hdr_at_def)
qed

lemma shs_tail_at_pending:
  assumes "shs_acc_ok a" and "j + 4 \<le> acc_len a"
  shows "shs_tail_at (acc a) (start a + j) = shs_tail_at (shs_pending a) j"
proof -
  have "acc a ! (start a + j + i) = shs_pending a ! (j + i)" if "i < 4" for i
    using shs_pending_nth [OF assms(1), of "j + i"] assms(2) that by (simp add: add.assoc)
  from this [of 0] this [of 1] this [of 2] this [of 3] show ?thesis
    by (simp add: shs_tail_at_def)
qed

lemma memmove_to_front_length:
  "s + n \<le> length xs \<Longrightarrow> length (memmove_to_front xs s n) = length xs"
  by (simp add: memmove_to_front_def)

lemma memmove_to_front_take:
  "s + n \<le> length xs \<Longrightarrow> take n (memmove_to_front xs s n) = take n (drop s xs)"
  by (simp add: memmove_to_front_def)

lemma memcpy_at_length:
  "off + length src \<le> length xs \<Longrightarrow> length (memcpy_at xs off src) = length xs"
  by (simp add: memcpy_at_def)

lemma memcpy_at_window:
  assumes "s + m + length src \<le> length xs"
  shows "take (m + length src) (drop s (memcpy_at xs (s + m) src)) = take m (drop s xs) @ src"
proof -
  have "drop s (memcpy_at xs (s + m) src) =
        take m (drop s xs) @ src @ drop (s + m + length src) xs"
    using assms by (simp add: memcpy_at_def drop_take)
  moreover have "length (take m (drop s xs)) = m" using assms by simp
  ultimately show ?thesis by simp
qed

text \<open>The append half of a pass in one formula: the window moves to offset \<open>s'\<close>, the
  array \<open>xs'\<close> holds it there, and \<open>src\<close> is the part of the read that fits behind it.\<close>

lemma shs_acc_append_eq:
  fixes a :: shs_acc_t and rx :: "byte list"
  assumes "shs_acc_ok a"
  defines "mv \<equiv> SHS_UART_ACC_BUF_SIZE < start a + acc_len a + length rx"
  defines "s' \<equiv> (if mv then 0 else start a)"
  defines "xs' \<equiv> (if mv \<and> 0 < acc_len a
                  then memmove_to_front (acc a) (start a) (acc_len a) else acc a)"
  defines "src \<equiv> take (SHS_UART_ACC_BUF_SIZE - (s' + acc_len a)) rx"
  shows "shs_acc_append rx a =
         \<lparr>acc = memcpy_at xs' (s' + acc_len a) src, start = s', acc_len = acc_len a + length src\<rparr>"
proof (cases mv)
  case False
  then have "length rx \<le> SHS_UART_ACC_BUF_SIZE - (start a + acc_len a)"
    by (simp add: mv_def)
  then have "src = rx" using False by (simp add: src_def s'_def)
  then show ?thesis
    using False by (simp add: shs_acc_append_def Let_def mv_def [symmetric] s'_def xs'_def)
next
  case True
  show ?thesis
  proof (cases "SHS_UART_ACC_BUF_SIZE < acc_len a + length rx")
    case t: True
    then have "length src = SHS_UART_ACC_BUF_SIZE - acc_len a"
      using True by (simp add: src_def s'_def)
    then show ?thesis
      using True t
      by (simp add: shs_acc_append_def Let_def mv_def [symmetric] s'_def xs'_def src_def)
  next
    case f: False
    then have "src = rx" using True by (simp add: src_def s'_def)
    then show ?thesis
      using True f
      by (simp add: shs_acc_append_def Let_def mv_def [symmetric] s'_def xs'_def)
  qed
qed

lemma shs_acc_append_props:
  assumes "shs_acc_ok a"
  shows "shs_acc_ok (shs_acc_append rx a)"
    and "shs_pending (shs_acc_append rx a) =
         shs_pending a @ take (SHS_UART_ACC_BUF_SIZE - acc_len a) rx"
    and "acc_len (shs_acc_append rx a) =
         acc_len a + length (take (SHS_UART_ACC_BUF_SIZE - acc_len a) rx)"
proof -
  let ?N = "SHS_UART_ACC_BUF_SIZE"
  let ?mv = "?N < start a + acc_len a + length rx"
  let ?s = "if ?mv then 0 else start a"
  let ?xs = "if ?mv \<and> 0 < acc_len a
             then memmove_to_front (acc a) (start a) (acc_len a) else acc a"
  let ?src = "take (?N - (?s + acc_len a)) rx"
  note e = shs_acc_append_eq [OF assms, of rx]
  from assms have la: "length (acc a) = ?N" and sa: "start a + acc_len a \<le> ?N"
    by (simp_all add: shs_acc_ok_def)
  have lx: "length ?xs = ?N"
    using la sa by (simp add: memmove_to_front_length)
  have fit: "?s + acc_len a + length ?src \<le> length ?xs"
    unfolding lx using sa by (auto simp add: min_def)
  have win: "take (acc_len a) (drop ?s ?xs) = shs_pending a"
  proof (cases "?mv \<and> 0 < acc_len a")
    case True
    then show ?thesis
      using memmove_to_front_take [of "start a" "acc_len a" "acc a"] la sa
      by (simp add: shs_pending_def)
  next
    case False
    then show ?thesis by (auto simp add: shs_pending_def)
  qed
  have src: "?src = take (?N - acc_len a) rx"
  proof (cases ?mv)
    case True
    then show ?thesis by simp
  next
    case False
    then have "length rx \<le> ?N - (start a + acc_len a)" by simp
    then have "take (?N - (start a + acc_len a)) rx = rx" and "take (?N - acc_len a) rx = rx"
      by simp_all
    then show ?thesis using False by simp
  qed
  show "shs_acc_ok (shs_acc_append rx a)"
    unfolding e using fit lx by (simp add: shs_acc_ok_def memcpy_at_length add.assoc)
  show "shs_pending (shs_acc_append rx a) = shs_pending a @ take (?N - acc_len a) rx"
    unfolding e using memcpy_at_window [OF fit] win src by (simp add: shs_pending_def)
  show "acc_len (shs_acc_append rx a) = acc_len a + length (take (?N - acc_len a) rx)"
    unfolding e using src by simp
qed

text \<open>The header scan returns an offset at which a header stands, unless it ran to the
  end of the window.\<close>

lemma shs_find_hdr_found:
  "shs_find_hdr xs s n h + 4 \<le> n \<Longrightarrow> shs_hdr_at xs (s + shs_find_hdr xs s n h)"
proof (induction xs s n h rule: shs_find_hdr.induct)
  case (1 a s n h)
  show ?case
  proof (cases "h + 4 \<le> n")
    case False
    then have "shs_find_hdr a s n h = h" by (simp add: shs_find_hdr.simps)
    with "1.prems" False show ?thesis by simp
  next
    case True
    show ?thesis
    proof (cases "shs_hdr_at a (s + h)")
      case t: True
      with True have "shs_find_hdr a s n h = h" by (simp add: shs_find_hdr.simps)
      with t show ?thesis by simp
    next
      case f: False
      with True have e: "shs_find_hdr a s n h = shs_find_hdr a s n (h + 1)"
        by (subst shs_find_hdr.simps) simp
      from "1.IH" [OF True f] "1.prems" show ?thesis unfolding e by simp
    qed
  qed
qed

lemma shs_find_hdr_at_0:
  "4 \<le> n \<Longrightarrow> shs_hdr_at xs s \<Longrightarrow> shs_find_hdr xs s n 0 = 0"
  by (subst shs_find_hdr.simps) simp

text \<open>When no header with nine bytes from its start stands in the window, the frame
  loop leaves the buffer as it is and hands nothing to the state machine.\<close>

lemma shs_frame_loop_idle:
  assumes "\<forall>j. j + 9 \<le> acc_len a \<longrightarrow> \<not> shs_hdr_at (acc a) (start a + j)"
  shows "shs_frame_loop a = (a, [])"
proof (cases "9 \<le> acc_len a")
  case False
  then show ?thesis by (subst shs_frame_loop.simps) (simp add: shs_sizes)
next
  case True
  let ?h = "shs_find_hdr (acc a) (start a) (acc_len a) 0"
  have "acc_len a < ?h + 9"
  proof (rule ccontr)
    assume "\<not> acc_len a < ?h + 9"
    then have le: "?h + 9 \<le> acc_len a" by simp
    then have "?h + 4 \<le> acc_len a" by simp
    then have "shs_hdr_at (acc a) (start a + ?h)" by (rule shs_find_hdr_found)
    with assms le show False by blast
  qed
  then show ?thesis by (subst shs_frame_loop.simps) (simp add: shs_sizes Let_def)
qed

lemma shs_le16_word:
  assumes "n < 65536"
  shows "(ucast (word_of_nat (n mod 256) :: byte) :: 16 word) OR
         push_bit 8 (ucast (word_of_nat (n div 256) :: byte)) = word_of_nat n"
proof (rule bit_word_eqI)
  fix k :: nat
  assume k: "k < LENGTH(16)"
  have m: "n mod 256 = take_bit 8 n" by (simp add: take_bit_eq_mod)
  have d: "n div 256 = drop_bit 8 n" by (simp add: drop_bit_eq_div)
  show "bit ((ucast (word_of_nat (n mod 256) :: byte) :: 16 word) OR
         push_bit 8 (ucast (word_of_nat (n div 256) :: byte))) k = bit (word_of_nat n :: 16 word) k"
    unfolding m d using k
    by (auto simp add: bit_simps)
qed

lemma shs_le16:
  assumes "n < 65536"
  shows "unat ((ucast (word_of_nat (n mod 256) :: byte) :: 16 word) OR
         push_bit 8 (ucast (word_of_nat (n div 256) :: byte))) = n"
  unfolding shs_le16_word [OF assms] using assms by (simp add: unat_of_nat)

text \<open>One turn of the frame loop on a header at offset \<open>h\<close> with nine bytes from its
  start in the window.\<close>

lemma shs_frame_loop_step:
  assumes "shs_find_hdr (acc a) (start a) (acc_len a) 0 = h" and "h + 9 \<le> acc_len a"
  shows "shs_frame_loop a =
     (fst (shs_frame_loop
        (a\<lparr>start := start a + (if shs_frame_confirmed a h then h + shs_frame_total a h else h + 9),
           acc_len := acc_len a - (if shs_frame_confirmed a h then h + shs_frame_total a h else h + 9)\<rparr>)),
      acc a ! (start a + h + 8) #
      snd (shs_frame_loop
        (a\<lparr>start := start a + (if shs_frame_confirmed a h then h + shs_frame_total a h else h + 9),
           acc_len := acc_len a - (if shs_frame_confirmed a h then h + shs_frame_total a h else h + 9)\<rparr>)))"
proof -
  from assms(2) have "9 \<le> acc_len a" and "\<not> acc_len a < h + 9" and "\<not> acc_len a \<le> h"
    by simp_all
  then show ?thesis
    by (subst shs_frame_loop.simps) (simp add: assms(1) shs_sizes Let_def)
qed

lemma shs_frame_loop_short:
  "acc_len a < 9 \<Longrightarrow> shs_frame_loop a = (a, [])"
  by (subst shs_frame_loop.simps) (simp add: shs_sizes)

lemma shs_frame_bytes:
  "length (shs_rx_frame payload) = length payload + 10"
  "shs_hdr_at (shs_rx_frame payload) 0"
  "shs_tail_at (shs_rx_frame payload) (length payload + 6)"
  "shs_rx_frame payload ! 4 = word_of_nat (length payload mod 256)"
  "shs_rx_frame payload ! 5 = word_of_nat (length payload div 256)"
  by (simp_all add: shs_rx_frame_def shs_hdr_at_def shs_tail_at_def nth_append)

text \<open>The length field of a window that starts with at least six bytes of a frame.\<close>

lemma shs_le_len_frame:
  assumes "shs_acc_ok a" and "6 \<le> acc_len a"
    and "take 6 (shs_pending a) = take 6 (shs_rx_frame payload)"
    and "length payload < 65536"
  shows "shs_frame_total a 0 = length payload + 10"
proof -
  have "shs_pending a ! i = shs_rx_frame payload ! i" if "i < 6" for i
    using assms(3) that by (metis nth_take)
  from this [of 4] this [of 5]
  have "acc a ! (start a + 4) = word_of_nat (length payload mod 256)"
    and "acc a ! (start a + 5) = word_of_nat (length payload div 256)"
    using shs_pending_nth [OF assms(1), of 4] shs_pending_nth [OF assms(1), of 5] assms(2)
    by (simp_all add: shs_frame_bytes)
  then show ?thesis
    using shs_le16 [OF assms(4)] by (simp add: shs_frame_total_def shs_le_len_def)
qed

text \<open>A window that holds exactly one frame: the frame is confirmed, its state byte is
  handed over, and the window is empty afterwards.\<close>

lemma shs_frame_loop_whole:
  assumes "shs_acc_ok a" and "shs_pending a = shs_rx_frame payload"
    and "length payload < 65536"
  shows "shs_frame_loop a =
         (a\<lparr>start := start a + (length payload + 10), acc_len := 0\<rparr>,
          [shs_rx_frame payload ! 8])"
proof -
  have n: "acc_len a = length payload + 10"
    using shs_pending_length [OF assms(1)] assms(2) by (simp add: shs_frame_bytes)
  have "shs_hdr_at (acc a) (start a + 0)"
    using shs_hdr_at_pending [OF assms(1), of 0] n assms(2) by (simp add: shs_frame_bytes)
  then have h: "shs_find_hdr (acc a) (start a) (acc_len a) 0 = 0"
    using n by (intro shs_find_hdr_at_0) simp_all
  have tot: "shs_frame_total a 0 = length payload + 10"
    using assms n by (intro shs_le_len_frame) simp_all
  have "shs_tail_at (acc a) (start a + (length payload + 6))"
    using shs_tail_at_pending [OF assms(1), of "length payload + 6"] n assms(2)
    by (simp add: shs_frame_bytes)
  moreover have "start a + 0 + shs_frame_total a 0 - 4 = start a + (length payload + 6)"
    using tot by simp
  ultimately have c: "shs_frame_confirmed a 0"
    using n tot by (simp only: shs_frame_confirmed_def) simp
  have b: "acc a ! (start a + 0 + 8) = shs_rx_frame payload ! 8"
    using shs_pending_nth [OF assms(1), of 8] n assms(2) by simp
  have s: "shs_frame_loop (a\<lparr>start := start a + (length payload + 10), acc_len := 0\<rparr>) =
           (a\<lparr>start := start a + (length payload + 10), acc_len := 0\<rparr>, [])"
    by (rule shs_frame_loop_short) simp
  show ?thesis
    using shs_frame_loop_step [OF h] n c tot b s by simp
qed

lemma shs_inner_hdr_whole:
  "snd (shs_ld2410_rx_all [shs_rx_frame shs_inner_hdr_payload] shs_acc_init) = [0x01]"
  by code_simp

lemma shs_inner_hdr_split:
  "snd (shs_ld2410_rx_all [take 10 (shs_rx_frame shs_inner_hdr_payload),
                           drop 10 (shs_rx_frame shs_inner_hdr_payload)] shs_acc_init) = [0x01, 0xF8]"
  by code_simp

lemma shs_rx_nonempty:
  "rx \<noteq> [] \<Longrightarrow> shs_ld2410_rx rx a = shs_frame_loop (shs_acc_append rx a)"
  by (simp add: shs_ld2410_rx_def)

lemma shs_shift_window:
  assumes "shs_acc_ok a" and "d \<le> acc_len a"
  shows "shs_acc_ok (a\<lparr>start := start a + d, acc_len := acc_len a - d\<rparr>)"
    and "shs_pending (a\<lparr>start := start a + d, acc_len := acc_len a - d\<rparr>) =
         drop d (shs_pending a)"
  using assms
  by (simp_all add: shs_acc_ok_def shs_pending_def drop_take add.commute)

text \<open>The whole frame in one read, from an empty window.\<close>

lemma shs_rx_whole:
  assumes "shs_acc_ok a" and "acc_len a = 0"
    and "length (shs_rx_frame payload) \<le> SHS_UART_BUF_SIZE"
  shows "shs_ld2410_rx (shs_rx_frame payload) a =
         ((shs_acc_append (shs_rx_frame payload) a)
            \<lparr>start := start (shs_acc_append (shs_rx_frame payload) a) + (length payload + 10),
             acc_len := 0\<rparr>,
          [shs_rx_frame payload ! 8])"
proof -
  let ?fr = "shs_rx_frame payload"
  let ?a1 = "shs_acc_append ?fr a"
  have ne: "?fr \<noteq> []" by (simp add: shs_rx_frame_def)
  have n: "length payload < 65536" using assms(3) by (simp add: shs_frame_bytes shs_sizes)
  note p = shs_acc_append_props [OF assms(1), of ?fr]
  have "take (SHS_UART_ACC_BUF_SIZE - acc_len a) ?fr = ?fr"
    using assms(2) assms(3) by (simp add: shs_sizes)
  then have pe: "shs_pending ?a1 = ?fr"
    using p(2) assms(1) assms(2) shs_pending_length [OF assms(1)] by simp
  show ?thesis
    unfolding shs_rx_nonempty [OF ne] by (rule shs_frame_loop_whole [OF p(1) pe n])
qed

text \<open>
  Claim C4. One correctly framed receive packet (receive header, little-endian length
  equal to the payload's length, payload, receive trailer) that fits one read and
  carries the byte \<open>b\<close> at the state-byte offset 8, fed to the decoder whose window is
  empty, hands exactly one state byte to the state machine, namely \<open>b\<close>, and leaves
  the window empty. This holds for every byte \<open>b\<close>, valid state or not.
\<close>

theorem C4_frame_round_trip:
  assumes "shs_acc_ok a" and "acc_len a = 0"
    and "length (shs_rx_frame payload) \<le> SHS_UART_BUF_SIZE"
    and "shs_rx_frame payload ! 8 = b"
  shows "snd (shs_ld2410_rx (shs_rx_frame payload) a) = [b] \<and>
         acc_len (fst (shs_ld2410_rx (shs_rx_frame payload) a)) = 0 \<and>
         shs_pending (fst (shs_ld2410_rx (shs_rx_frame payload) a)) = []"
  unfolding shs_rx_whole [OF assms(1) assms(2) assms(3)]
  using assms(4) by (simp add: shs_pending_def)

lemma shs_acc_init_ok: "shs_acc_ok shs_acc_init" "acc_len shs_acc_init = 0"
  by (simp_all add: shs_acc_ok_def shs_acc_init_def)

theorem C4_frame_round_trip_witness:
  "snd (shs_ld2410_rx (shs_rx_frame shs_basic_payload) shs_acc_init) = [0x01] \<and>
   acc_len (fst (shs_ld2410_rx (shs_rx_frame shs_basic_payload) shs_acc_init)) = 0"
proof -
  have l: "length (shs_rx_frame shs_basic_payload) \<le> SHS_UART_BUF_SIZE"
    by (simp add: shs_rx_frame_def shs_basic_payload_def shs_sizes)
  have b: "shs_rx_frame shs_basic_payload ! 8 = 0x01"
    by (simp add: shs_rx_frame_def shs_basic_payload_def)
  from C4_frame_round_trip [OF shs_acc_init_ok l b] show ?thesis by simp
qed

lemma shs_hdr_at_take_drop:
  assumes "j + 4 \<le> length (take m (drop d fr))"
  shows "shs_hdr_at (take m (drop d fr)) j = shs_hdr_at fr (d + j)"
proof -
  have "d \<le> length fr" using assms by simp arith
  then have "take m (drop d fr) ! (j + i) = fr ! (d + j + i)" if "i < 4" for i
    using assms that by (simp add: add.assoc)
  from this [of 0] this [of 1] this [of 2] this [of 3] show ?thesis
    by (simp add: shs_hdr_at_def)
qed

text \<open>A window made of frame bytes from offset 9 on holds nothing for the loop when no
  header stands in that part of the frame.\<close>

lemma shs_idle_from_inner:
  assumes "shs_acc_ok a" and "shs_pending a = take m (drop 9 fr)" and "\<not> shs_inner_hdr fr"
  shows "shs_frame_loop a = (a, [])"
proof (rule shs_frame_loop_idle, intro allI impI)
  fix j
  assume j: "j + 9 \<le> acc_len a"
  have len: "acc_len a = length (take m (drop 9 fr))"
    using shs_pending_length [OF assms(1)] assms(2) by simp
  then have j4: "j + 4 \<le> length (take m (drop 9 fr))" using j by simp
  have "j + 9 \<le> length fr - 9" using j len by simp
  then have "9 + j \<in> set [9 ..< length fr - 8]" by simp
  then have "\<not> shs_hdr_at fr (9 + j)" using assms(3) by (auto simp: shs_inner_hdr_def)
  then have "\<not> shs_hdr_at (shs_pending a) j"
    using shs_hdr_at_take_drop [OF j4] assms(2) by simp
  then show "\<not> shs_hdr_at (acc a) (start a + j)"
    using shs_hdr_at_pending [OF assms(1), of j] j by simp
qed

text \<open>A window that holds the first \<open>k \<ge> 9\<close> bytes of a longer frame: the frame is not
  confirmed, its state byte is handed over all the same and nine bytes are dropped.\<close>

lemma shs_frame_loop_partial:
  assumes "shs_acc_ok a" and "shs_pending a = take k (shs_rx_frame payload)"
    and "9 \<le> k" and "k < length (shs_rx_frame payload)" and "length payload < 65536"
  shows "shs_frame_loop a =
     (fst (shs_frame_loop (a\<lparr>start := start a + 9, acc_len := acc_len a - 9\<rparr>)),
      shs_rx_frame payload ! 8 #
      snd (shs_frame_loop (a\<lparr>start := start a + 9, acc_len := acc_len a - 9\<rparr>)))"
proof -
  let ?fr = "shs_rx_frame payload"
  have n: "acc_len a = k"
    using shs_pending_length [OF assms(1)] assms(2) assms(4) by simp
  have "shs_hdr_at (take k (drop 0 ?fr)) 0 = shs_hdr_at ?fr (0 + 0)"
    using assms(3) assms(4) by (intro shs_hdr_at_take_drop) simp
  then have "shs_hdr_at (shs_pending a) 0" using assms(2) by (simp add: shs_frame_bytes)
  then have "shs_hdr_at (acc a) (start a + 0)"
    using shs_hdr_at_pending [OF assms(1), of 0] n assms(3) by simp
  then have h: "shs_find_hdr (acc a) (start a) (acc_len a) 0 = 0"
    using n assms(3) by (intro shs_find_hdr_at_0) simp_all
  have nc: "\<not> shs_frame_confirmed a 0"
  proof (cases "10 \<le> k")
    case False
    then show ?thesis using n by (simp add: shs_frame_confirmed_def)
  next
    case True
    have "take 6 (shs_pending a) = take 6 ?fr" using assms(2) True by simp
    then have "shs_frame_total a 0 = length payload + 10"
      using assms(1) n True assms(5) by (intro shs_le_len_frame) simp_all
    then show ?thesis
      using n assms(4) by (simp add: shs_frame_confirmed_def shs_frame_bytes)
  qed
  have b: "acc a ! (start a + 0 + 8) = ?fr ! 8"
    using shs_pending_nth [OF assms(1), of 8] n assms(2) assms(3) by simp
  show ?thesis
    using shs_frame_loop_step [OF h] n assms(3) nc b by simp
qed

text \<open>The frame in two reads, from an empty window.\<close>

lemma shs_rx_split:
  assumes "shs_acc_ok a" and "acc_len a = 0"
    and "length (shs_rx_frame payload) \<le> SHS_UART_BUF_SIZE"
    and "c1 \<noteq> []" and "c2 \<noteq> []" and "c1 @ c2 = shs_rx_frame payload"
    and "length c1 < 9 \<or> \<not> shs_inner_hdr (shs_rx_frame payload)"
  shows "snd (shs_ld2410_rx_all [c1, c2] a) = [shs_rx_frame payload ! 8]"
proof -
  let ?fr = "shs_rx_frame payload"
  let ?k = "length c1"
  let ?a1 = "shs_acc_append c1 a"
  have n: "length payload < 65536" using assms(3) by (simp add: shs_frame_bytes shs_sizes)
  have lf: "length c1 + length c2 = length ?fr"
    using assms(6) by (metis length_append)
  have c1: "c1 = take ?k ?fr" using assms(6) by (metis append_eq_conv_conj)
  have "0 < length c2" using assms(5) by simp
  then have kl: "?k < length ?fr" using lf by linarith
  note p1 = shs_acc_append_props [OF assms(1), of c1]
  have "take (SHS_UART_ACC_BUF_SIZE - acc_len a) c1 = c1"
    using assms(2) assms(3) lf by (simp add: shs_sizes)
  then have pe1: "shs_pending ?a1 = c1" and l1: "acc_len ?a1 = ?k"
    using p1(2) p1(3) assms(2) shs_pending_length [OF assms(1)] by simp_all
  show ?thesis
  proof (cases "?k < 9")
    case True
    have r1: "shs_ld2410_rx c1 a = (?a1, [])"
      unfolding shs_rx_nonempty [OF assms(4)] using l1 True by (intro shs_frame_loop_short) simp
    let ?a2 = "shs_acc_append c2 ?a1"
    note p2 = shs_acc_append_props [OF p1(1), of c2]
    have "take (SHS_UART_ACC_BUF_SIZE - acc_len ?a1) c2 = c2"
      using l1 assms(3) lf by (simp add: shs_sizes)
    then have pe2: "shs_pending ?a2 = ?fr" using p2(2) pe1 assms(6) by simp
    have r2: "snd (shs_ld2410_rx c2 ?a1) = [?fr ! 8]"
      unfolding shs_rx_nonempty [OF assms(5)]
      by (simp add: shs_frame_loop_whole [OF p2(1) pe2 n])
    show ?thesis using r1 r2 by (simp add: Let_def)
  next
    case False
    then have k9: "9 \<le> ?k" by simp
    with assms(7) have ni: "\<not> shs_inner_hdr ?fr" by simp
    let ?a9 = "?a1\<lparr>start := start ?a1 + 9, acc_len := acc_len ?a1 - 9\<rparr>"
    have pe1': "shs_pending ?a1 = take ?k ?fr" using pe1 c1 by simp
    note sh = shs_shift_window [OF p1(1), of 9]
    have ok9: "shs_acc_ok ?a9" using sh(1) l1 k9 by simp
    have pe9: "shs_pending ?a9 = take (?k - 9) (drop 9 ?fr)"
      using sh(2) l1 k9 pe1' by (simp add: drop_take)
    have i9: "shs_frame_loop ?a9 = (?a9, [])"
      by (rule shs_idle_from_inner [OF ok9 pe9 ni])
    have r1: "shs_ld2410_rx c1 a = (?a9, [?fr ! 8])"
      unfolding shs_rx_nonempty [OF assms(4)]
      using shs_frame_loop_partial [OF p1(1) pe1' k9 kl n] i9 by simp
    let ?a2 = "shs_acc_append c2 ?a9"
    note p2 = shs_acc_append_props [OF ok9, of c2]
    have l9: "acc_len ?a9 = ?k - 9" using l1 by simp
    have "take (SHS_UART_ACC_BUF_SIZE - acc_len ?a9) c2 = c2"
      using l9 assms(3) lf by (simp add: shs_sizes)
    then have "shs_pending ?a2 = take (?k - 9) (drop 9 ?fr) @ c2" using p2(2) pe9 by simp
    also have "\<dots> = drop 9 c1 @ c2" using c1 by (metis drop_take)
    also have "\<dots> = drop 9 (c1 @ c2)" using k9 by simp
    also have "\<dots> = take (length ?fr) (drop 9 ?fr)" using assms(6) by simp
    finally have pe2: "shs_pending ?a2 = take (length ?fr) (drop 9 ?fr)" .
    have r2: "shs_ld2410_rx c2 ?a9 = (?a2, [])"
      unfolding shs_rx_nonempty [OF assms(5)] by (rule shs_idle_from_inner [OF p2(1) pe2 ni])
    show ?thesis using r1 r2 by (simp add: Let_def)
  qed
qed

text \<open>
  Claim C5, amended. Take a valid receive frame that fits one read and any split of it
  into two non-empty chunks, fed in two successive reads from an empty window. When
  the first chunk is shorter than nine bytes, or when no receive header stands in the
  frame at an offset of 9 or more with nine bytes from there to the frame's end, the
  two reads hand over exactly the one state byte that the frame fed whole hands over.
  (A first chunk of nine bytes or more makes the loop take the state byte at once and
  drop nine bytes; the rest of the frame is then scanned as fresh input.)
\<close>

theorem C5_split_delivery:
  assumes "shs_acc_ok a" and "acc_len a = 0"
    and "length (shs_rx_frame payload) \<le> SHS_UART_BUF_SIZE"
    and "c1 \<noteq> []" and "c2 \<noteq> []" and "c1 @ c2 = shs_rx_frame payload"
    and "length c1 < 9 \<or> \<not> shs_inner_hdr (shs_rx_frame payload)"
  shows "snd (shs_ld2410_rx_all [c1, c2] a) = snd (shs_ld2410_rx_all [shs_rx_frame payload] a) \<and>
         snd (shs_ld2410_rx_all [c1, c2] a) = [shs_rx_frame payload ! 8]"
proof -
  have "snd (shs_ld2410_rx_all [shs_rx_frame payload] a) = [shs_rx_frame payload ! 8]"
    by (simp add: Let_def shs_rx_whole [OF assms(1) assms(2) assms(3)])
  then show ?thesis using shs_rx_split [OF assms] by simp
qed

theorem C5_split_delivery_witness:
  "snd (shs_ld2410_rx_all [take 12 (shs_rx_frame shs_basic_payload),
                           drop 12 (shs_rx_frame shs_basic_payload)] shs_acc_init) = [0x01]"
proof -
  let ?fr = "shs_rx_frame shs_basic_payload"
  have l: "length ?fr \<le> SHS_UART_BUF_SIZE"
    by (simp add: shs_rx_frame_def shs_basic_payload_def shs_sizes)
  have c1: "take 12 ?fr \<noteq> []" and c2: "drop 12 ?fr \<noteq> []"
    by (simp_all add: shs_rx_frame_def shs_basic_payload_def)
  have c: "take 12 ?fr @ drop 12 ?fr = ?fr" by simp
  have ni: "length (take 12 ?fr) < 9 \<or> \<not> shs_inner_hdr ?fr"
    by (simp add: shs_inner_hdr_def shs_rx_frame_def shs_basic_payload_def shs_hdr_at_def)
  have b: "?fr ! 8 = 0x01"
    by (simp add: shs_rx_frame_def shs_basic_payload_def)
  note t = C5_split_delivery [OF shs_acc_init_ok l c1 c2 c ni]
  from t have "snd (shs_ld2410_rx_all [take 12 ?fr, drop 12 ?fr] shs_acc_init) = [?fr ! 8]"
    by (rule conjunct2)
  then show ?thesis unfolding b .
qed

lemma shs_frame_loop_break:
  assumes "acc_len a < shs_find_hdr (acc a) (start a) (acc_len a) 0 + 9"
  shows "shs_frame_loop a = (a, [])"
  using assms by (subst shs_frame_loop.simps) (simp add: shs_sizes Let_def)

lemma shs_frame_confirmed_fits:
  "shs_frame_confirmed a h \<Longrightarrow> h + shs_frame_total a h \<le> acc_len a"
  by (simp add: shs_frame_confirmed_def split: if_splits)

text \<open>The frame loop only ever removes a prefix of the window, and removes nothing
  unless it hands a state byte over.\<close>

lemma shs_frame_loop_suffix:
  assumes "shs_acc_ok a"
  shows "shs_acc_ok (fst (shs_frame_loop a)) \<and>
         (\<exists>d. shs_pending (fst (shs_frame_loop a)) = drop d (shs_pending a)) \<and>
         (snd (shs_frame_loop a) = [] \<longrightarrow> fst (shs_frame_loop a) = a)"
  using assms
proof (induction "acc_len a" arbitrary: a rule: less_induct)
  case less
  let ?h = "shs_find_hdr (acc a) (start a) (acc_len a) 0"
  show ?case
  proof (cases "acc_len a < ?h + 9")
    case True
    then have "shs_frame_loop a = (a, [])" by (rule shs_frame_loop_break)
    then show ?thesis using less.prems by (simp add: exI [of _ 0])
  next
    case False
    then have h9: "?h + 9 \<le> acc_len a" by simp
    let ?d = "if shs_frame_confirmed a ?h then ?h + shs_frame_total a ?h else ?h + 9"
    let ?a' = "a\<lparr>start := start a + ?d, acc_len := acc_len a - ?d\<rparr>"
    have dle: "?d \<le> acc_len a" using h9 shs_frame_confirmed_fits [of a ?h] by simp
    have dpos: "0 < ?d" by (simp add: shs_frame_total_def)
    note sh = shs_shift_window [OF less.prems dle]
    have "acc_len ?a' < acc_len a" using dle dpos h9 by simp
    from less.hyps [OF this sh(1)]
    obtain d' where ok: "shs_acc_ok (fst (shs_frame_loop ?a'))"
      and su: "shs_pending (fst (shs_frame_loop ?a')) = drop d' (shs_pending ?a')"
      by blast
    have st: "shs_frame_loop a =
        (fst (shs_frame_loop ?a'), acc a ! (start a + ?h + 8) # snd (shs_frame_loop ?a'))"
      by (rule shs_frame_loop_step [OF refl h9])
    have "shs_pending (fst (shs_frame_loop a)) = drop (d' + ?d) (shs_pending a)"
      unfolding st using su sh(2) by (simp add: add.commute)
    then have "\<exists>d. shs_pending (fst (shs_frame_loop a)) = drop d (shs_pending a)" by blast
    then show ?thesis unfolding st using ok by simp
  qed
qed

lemma shs_four_bytes:
  "4 \<le> length xs \<Longrightarrow> \<exists>b0 b1 b2 b3 rest. xs = b0 # b1 # b2 # b3 # rest"
  by (auto simp: eval_nat_numeral Suc_le_length_iff)

lemma shs_has_hdr_at:
  "shs_hdr_at xs j \<Longrightarrow> j + 4 \<le> length xs \<Longrightarrow> shs_has_hdr xs"
proof (induction j arbitrary: xs)
  case 0
  then obtain b0 b1 b2 b3 rest where xs: "xs = b0 # b1 # b2 # b3 # rest"
    using shs_four_bytes [of xs] by auto
  with 0 show ?case by (simp add: shs_hdr_at_def)
next
  case (Suc j)
  then obtain b0 b1 b2 b3 rest where xs: "xs = b0 # b1 # b2 # b3 # rest"
    using shs_four_bytes [of xs] by auto
  from Suc.prems have "shs_hdr_at (b1 # b2 # b3 # rest) j" and "j + 4 \<le> length (b1 # b2 # b3 # rest)"
    by (simp_all add: xs shs_hdr_at_def)
  then have "shs_has_hdr (b1 # b2 # b3 # rest)" by (rule Suc.IH)
  then show ?case by (simp add: xs)
qed

text \<open>A read after which the window holds no header: everything is kept, nothing is
  handed over.\<close>

lemma shs_rx_no_hdr:
  assumes "shs_acc_ok a" and "rx \<noteq> []"
    and "\<not> shs_has_hdr (shs_pending a @ take (SHS_UART_ACC_BUF_SIZE - acc_len a) rx)"
  shows "shs_ld2410_rx rx a = (shs_acc_append rx a, [])"
proof -
  let ?a1 = "shs_acc_append rx a"
  note p = shs_acc_append_props [OF assms(1), of rx]
  have "shs_frame_loop ?a1 = (?a1, [])"
  proof (rule shs_frame_loop_idle, intro allI impI)
    fix j
    assume j: "j + 9 \<le> acc_len ?a1"
    then have j4: "j + 4 \<le> acc_len ?a1" by simp
    then have "j + 4 \<le> length (shs_pending ?a1)" using shs_pending_length [OF p(1)] by simp
    then have "\<not> shs_hdr_at (shs_pending ?a1) j"
      using assms(3) shs_has_hdr_at [of "shs_pending ?a1" j] unfolding p(2) by blast
    then show "\<not> shs_hdr_at (acc ?a1) (start ?a1 + j)"
      using shs_hdr_at_pending [OF p(1) j4] by simp
  qed
  then show ?thesis unfolding shs_rx_nonempty [OF assms(2)] .
qed

text \<open>The header scan and the confirmation test of the source, on the pending bytes.\<close>

lemma shs_first_hdr_short: "length xs < 4 \<Longrightarrow> shs_first_hdr xs = 0"
  by (cases xs rule: shs_first_hdr.cases) simp_all

lemma shs_first_hdr_long:
  assumes "4 \<le> length xs"
  shows "shs_first_hdr xs = (if shs_hdr_at xs 0 then 0 else Suc (shs_first_hdr (tl xs)))"
proof -
  from assms obtain b0 b1 b2 b3 rest where "xs = b0 # b1 # b2 # b3 # rest"
    using shs_four_bytes [of xs] by auto
  then show ?thesis by (simp add: shs_hdr_at_def)
qed

lemma shs_find_hdr_list:
  assumes "s + n \<le> length xs" and "h \<le> n"
  shows "shs_find_hdr xs s n h = h + shs_first_hdr (take (n - h) (drop (s + h) xs))"
  using assms
proof (induction xs s n h rule: shs_find_hdr.induct)
  case (1 a s n h)
  let ?w = "take (n - h) (drop (s + h) a)"
  have lw: "length ?w = n - h" using "1.prems" by simp
  show ?case
  proof (cases "h + 4 \<le> n")
    case False
    then have "shs_find_hdr a s n h = h" by (simp add: shs_find_hdr.simps)
    moreover have "shs_first_hdr ?w = 0" using False lw by (intro shs_first_hdr_short) simp
    ultimately show ?thesis by simp
  next
    case True
    then have l4: "4 \<le> length ?w" using lw by simp
    have hd: "shs_hdr_at ?w 0 = shs_hdr_at a (s + h)"
      using shs_hdr_at_take_drop [of 0 "n - h" "s + h" a] l4 by simp
    show ?thesis
    proof (cases "shs_hdr_at a (s + h)")
      case t: True
      with True have "shs_find_hdr a s n h = h" by (simp add: shs_find_hdr.simps)
      moreover have "shs_first_hdr ?w = 0" using shs_first_hdr_long [OF l4] hd t by simp
      ultimately show ?thesis by simp
    next
      case f: False
      with True have e: "shs_find_hdr a s n h = shs_find_hdr a s n (h + 1)"
        by (subst shs_find_hdr.simps) simp
      have "h + 1 \<le> n" using True by simp
      from "1.IH" [OF True f "1.prems"(1) this]
      have ih: "shs_find_hdr a s n (h + 1) =
                h + 1 + shs_first_hdr (take (n - (h + 1)) (drop (s + (h + 1)) a))" .
      have "tl ?w = take (n - (h + 1)) (drop (s + (h + 1)) a)"
        by (simp add: tl_take drop_Suc tl_drop)
      then have "shs_first_hdr ?w = Suc (shs_first_hdr (take (n - (h + 1)) (drop (s + (h + 1)) a)))"
        using shs_first_hdr_long [OF l4] hd f by simp
      then show ?thesis unfolding e ih by simp
    qed
  qed
qed

lemma shs_find_hdr_pending:
  assumes "shs_acc_ok a"
  shows "shs_find_hdr (acc a) (start a) (acc_len a) 0 = shs_first_hdr (shs_pending a)"
proof -
  have "start a + acc_len a \<le> length (acc a)" using assms by (simp add: shs_acc_ok_def)
  from shs_find_hdr_list [OF this, of 0] show ?thesis by (simp add: shs_pending_def)
qed

lemma shs_le16_bytes:
  "unat ((ucast (b0 :: byte) :: 16 word) OR push_bit 8 (ucast (b1 :: byte))) =
   unat b0 + 256 * unat b1"
proof -
  let ?n = "unat b0 + 256 * unat b1"
  have b0: "unat b0 < 256" and b1: "unat b1 < 256"
    using unsigned_less [of b0] unsigned_less [of b1] by simp_all
  then have n: "?n < 65536" by simp
  have "?n mod 256 = unat b0" and "?n div 256 = unat b1" using b0 by simp_all
  then have "(word_of_nat (?n mod 256) :: byte) = b0" and "(word_of_nat (?n div 256) :: byte) = b1"
    by simp_all
  with shs_le16 [OF n] show ?thesis by simp
qed

lemma shs_frame_total_pending:
  assumes "shs_acc_ok a" and "h + 6 \<le> acc_len a"
  shows "shs_frame_total a h = shs_win_total (shs_pending a) h"
  using shs_pending_nth [OF assms(1), of "h + 4"] shs_pending_nth [OF assms(1), of "h + 5"] assms(2)
  by (simp add: shs_frame_total_def shs_win_total_def shs_le_len_def shs_le16_bytes add.assoc)

lemma shs_frame_confirmed_pending:
  assumes "shs_acc_ok a"
  shows "shs_frame_confirmed a h = shs_win_confirmed (shs_pending a) h"
proof (cases "h + 10 \<le> acc_len a")
  case False
  then have "\<not> 10 \<le> acc_len a - h" by arith
  then show ?thesis
    using False shs_pending_length [OF assms]
    by (simp add: shs_frame_confirmed_def shs_win_confirmed_def)
next
  case True
  then have t: "shs_frame_total a h = shs_win_total (shs_pending a) h"
    using assms by (intro shs_frame_total_pending) simp_all
  show ?thesis
  proof (cases "h + shs_frame_total a h \<le> acc_len a")
    case False
    then show ?thesis
      using shs_pending_length [OF assms] t
      by (simp add: shs_frame_confirmed_def shs_win_confirmed_def)
  next
    case fit: True
    have "4 \<le> shs_frame_total a h" by (simp add: shs_frame_total_def)
    then have "h + shs_frame_total a h - 4 + 4 \<le> acc_len a" using fit by simp
    from shs_tail_at_pending [OF assms this]
    have "shs_tail_at (acc a) (start a + h + shs_frame_total a h - 4) =
          shs_tail_at (shs_pending a) (h + shs_frame_total a h - 4)"
      using \<open>4 \<le> shs_frame_total a h\<close> by (simp add: add.assoc)
    moreover have "10 \<le> acc_len a - h" using True by arith
    ultimately show ?thesis
      using True fit shs_pending_length [OF assms] t
      by (simp add: shs_frame_confirmed_def shs_win_confirmed_def)
  qed
qed

lemma shs_frame_loop_consume:
  assumes "shs_acc_ok a"
  shows "shs_pending (fst (shs_frame_loop a)) = fst (shs_consume (shs_pending a)) \<and>
         snd (shs_frame_loop a) = snd (shs_consume (shs_pending a))"
  using assms
proof (induction "acc_len a" arbitrary: a rule: less_induct)
  case less
  let ?w = "shs_pending a"
  let ?h = "shs_find_hdr (acc a) (start a) (acc_len a) 0"
  have hw: "?h = shs_first_hdr ?w" by (rule shs_find_hdr_pending [OF less.prems])
  have lw: "length ?w = acc_len a" by (rule shs_pending_length [OF less.prems])
  show ?case
  proof (cases "acc_len a < ?h + 9")
    case True
    then have "shs_frame_loop a = (a, [])" by (rule shs_frame_loop_break)
    moreover have "shs_taken ?w = 0" using True hw lw by (simp add: shs_taken_def)
    then have "shs_consume ?w = (?w, [])" by (subst shs_consume.simps) simp
    ultimately show ?thesis by simp
  next
    case False
    then have h9: "?h + 9 \<le> acc_len a" by simp
    let ?d = "if shs_frame_confirmed a ?h then ?h + shs_frame_total a ?h else ?h + 9"
    let ?a' = "a\<lparr>start := start a + ?d, acc_len := acc_len a - ?d\<rparr>"
    have dle: "?d \<le> acc_len a" using h9 shs_frame_confirmed_fits [of a ?h] by simp
    have dpos: "0 < ?d" by (simp add: shs_frame_total_def)
    note sh = shs_shift_window [OF less.prems dle]
    have "acc_len ?a' < acc_len a" using dle dpos h9 by simp
    note ih = less.hyps [OF this sh(1)]
    have st: "shs_frame_loop a =
        (fst (shs_frame_loop ?a'), acc a ! (start a + ?h + 8) # snd (shs_frame_loop ?a'))"
      by (rule shs_frame_loop_step [OF refl h9])
    have c: "shs_frame_confirmed a ?h = shs_win_confirmed ?w (shs_first_hdr ?w)"
      unfolding hw [symmetric] by (rule shs_frame_confirmed_pending [OF less.prems])
    have tt: "shs_frame_confirmed a ?h \<Longrightarrow>
              shs_frame_total a ?h = shs_win_total ?w (shs_first_hdr ?w)"
      unfolding hw [symmetric]
      using h9 by (intro shs_frame_total_pending [OF less.prems]) simp
    have tk: "shs_taken ?w = ?d"
      using h9 lw c tt by (simp add: shs_taken_def Let_def hw [symmetric])
    have b: "acc a ! (start a + ?h + 8) = ?w ! (shs_first_hdr ?w + 8)"
      using shs_pending_nth [OF less.prems, of "?h + 8"] h9 hw by (simp add: add.assoc)
    have "shs_consume ?w =
          (fst (shs_consume (drop ?d ?w)), ?w ! (shs_first_hdr ?w + 8) # snd (shs_consume (drop ?d ?w)))"
      using dpos by (subst shs_consume.simps) (simp only: tk Let_def, simp)
    then show ?thesis
      unfolding st using ih sh(2) b by simp
  qed
qed

lemma shs_first_hdr_found:
  "shs_first_hdr w + 4 \<le> length w \<Longrightarrow> shs_hdr_at w (shs_first_hdr w)"
proof (induction w rule: shs_first_hdr.induct)
  case (1 b0 b1 b2 b3 rest)
  show ?case
  proof (cases "b0 = 0xF4 \<and> b1 = 0xF3 \<and> b2 = 0xF2 \<and> b3 = 0xF1")
    case True
    then show ?thesis by (simp add: shs_hdr_at_def)
  next
    case False
    then have e: "shs_first_hdr (b0 # b1 # b2 # b3 # rest) = Suc (shs_first_hdr (b1 # b2 # b3 # rest))"
      by simp
    from "1.prems" have "shs_first_hdr (b1 # b2 # b3 # rest) + 4 \<le> length (b1 # b2 # b3 # rest)"
      unfolding e by simp
    from "1.IH" [OF False this] show ?thesis
      unfolding e by (simp add: shs_hdr_at_def)
  qed
qed simp_all

lemma shs_first_hdr_take:
  "shs_first_hdr w + 4 \<le> d \<Longrightarrow> shs_first_hdr (take d w) = shs_first_hdr w"
proof (induction w arbitrary: d rule: shs_first_hdr.induct)
  case (1 b0 b1 b2 b3 rest)
  let ?w = "b0 # b1 # b2 # b3 # rest"
  from "1.prems" have "4 \<le> d" by simp
  then have "d = Suc (Suc (Suc (Suc (d - 4))))" by simp
  then obtain d4 where d: "d = Suc (Suc (Suc (Suc d4)))" ..
  show ?case
  proof (cases "b0 = 0xF4 \<and> b1 = 0xF3 \<and> b2 = 0xF2 \<and> b3 = 0xF1")
    case True
    then show ?thesis by (simp add: d)
  next
    case False
    then have e: "shs_first_hdr ?w = Suc (shs_first_hdr (b1 # b2 # b3 # rest))" by simp
    from "1.prems" have "shs_first_hdr (b1 # b2 # b3 # rest) + 4 \<le> Suc (Suc (Suc d4))"
      unfolding e d by simp
    from "1.IH" [OF False this] show ?thesis
      unfolding e using False by (simp add: d)
  qed
qed simp_all

lemma shs_tail_at_take: "p + 4 \<le> d \<Longrightarrow> shs_tail_at (take d w) p = shs_tail_at w p"
  by (simp add: shs_tail_at_def)

lemma shs_taken_le: "shs_taken w \<le> length w"
  by (simp add: shs_taken_def Let_def shs_win_confirmed_def)

lemma shs_taken_ge: "shs_taken w \<noteq> 0 \<Longrightarrow> shs_first_hdr w + 9 \<le> shs_taken w"
  by (simp add: shs_taken_def Let_def shs_win_total_def split: if_splits)

lemma shs_taken_cases:
  assumes "shs_taken w \<noteq> 0"
  shows "shs_taken w = shs_first_hdr w + 9 \<or>
         (shs_taken w = shs_first_hdr w + shs_win_total w (shs_first_hdr w) \<and>
          shs_tail_at w (shs_taken w - 4))"
  using assms by (simp add: shs_taken_def Let_def shs_win_confirmed_def split: if_splits)

text \<open>The bytes taken in one turn are a segment: header-free bytes, then a frame.\<close>

lemma shs_taken_segment:
  assumes "shs_taken w \<noteq> 0"
  shows "shs_segment (take (shs_taken w) w) (w ! (shs_first_hdr w + 8))"
proof -
  let ?h = "shs_first_hdr w"
  let ?d = "shs_taken w"
  let ?s = "take ?d w"
  note ge = shs_taken_ge [OF assms]
  have ls: "length ?s = ?d" using shs_taken_le [of w] by simp
  have hs: "shs_first_hdr ?s = ?h" using ge by (intro shs_first_hdr_take) simp
  have "shs_first_hdr ?s + 4 \<le> length ?s" unfolding hs ls using ge by simp
  then have hd: "shs_hdr_at ?s ?h" using shs_first_hdr_found [of ?s] hs by simp
  have b: "?s ! (?h + 8) = w ! (?h + 8)" using ge by simp
  have t: "shs_win_total ?s ?h = shs_win_total w ?h"
    using ge by (simp add: shs_win_total_def)
  have "4 \<le> ?d" using ge by simp
  then have tl: "shs_tail_at ?s (?d - 4) = shs_tail_at w (?d - 4)"
    by (intro shs_tail_at_take) simp
  from shs_taken_cases [OF assms]
  have "length ?s = ?h + 9 \<or>
        (length ?s = ?h + shs_win_total ?s ?h \<and> shs_tail_at ?s (length ?s - 4))"
    unfolding ls t tl .
  then show ?thesis
    unfolding shs_segment_def Let_def hs using ge ls hd b by simp
qed

lemma shs_consume_segments:
  "\<exists>segs. w = concat segs @ fst (shs_consume w) \<and>
          list_all2 shs_segment segs (snd (shs_consume w))"
proof (induction w rule: shs_consume.induct)
  case (1 w)
  show ?case
  proof (cases "shs_taken w = 0")
    case True
    then have "shs_consume w = (w, [])" by (subst shs_consume.simps) simp
    then have "w = concat [] @ fst (shs_consume w) \<and>
               list_all2 shs_segment [] (snd (shs_consume w))" by simp
    then show ?thesis by blast
  next
    case False
    let ?d = "shs_taken w"
    let ?r = "shs_consume (drop ?d w)"
    from "1.IH" [OF False] obtain segs where
      c: "drop ?d w = concat segs @ fst ?r" and s: "list_all2 shs_segment segs (snd ?r)"
      by blast
    have e: "shs_consume w = (fst ?r, w ! (shs_first_hdr w + 8) # snd ?r)"
      using False by (subst shs_consume.simps) (simp add: Let_def)
    have "w = take ?d w @ drop ?d w" by simp
    then have "w = concat (take ?d w # segs) @ fst (shs_consume w)"
      unfolding e using c by simp
    moreover have "list_all2 shs_segment (take ?d w # segs) (snd (shs_consume w))"
      unfolding e using s shs_taken_segment [OF False] by simp
    ultimately show ?thesis by blast
  qed
qed

lemma shs_consume_rest: "shs_taken (fst (shs_consume w)) = 0"
proof (induction w rule: shs_consume.induct)
  case (1 w)
  show ?case
  proof (cases "shs_taken w = 0")
    case True
    then have "shs_consume w = (w, [])" by (subst shs_consume.simps) simp
    with True show ?thesis by simp
  next
    case False
    then have "fst (shs_consume w) = fst (shs_consume (drop (shs_taken w) w))"
      by (subst shs_consume.simps) (simp add: Let_def)
    with "1.IH" [OF False] show ?thesis by simp
  qed
qed

lemma shs_taken_0: "shs_taken w = 0 \<Longrightarrow> length w < shs_first_hdr w + 9"
  by (simp add: shs_taken_def Let_def shs_win_total_def split: if_splits)

lemma shs_noise_frame_consume:
  "shs_consume (0x11 # 0x22 # shs_rx_frame shs_basic_payload @ [0xF4, 0xF3, 0xF2, 0xF1, 0x0D]) =
   ([0xF4, 0xF3, 0xF2, 0xF1, 0x0D], [0x01])"
  by code_simp

text \<open>
  Claim C3, amended. For a buffer of the task and any read: the pending bytes are all
  kept by the append, also when it compacts them to the front; the newly arrived
  bytes are appended in full when pending and new bytes together are at most 1024, and
  otherwise only the first \<open>1024 - pending\<close> of them are appended and the rest of the
  read is discarded. The frame loop then leaves the window and hands over the state
  bytes exactly as \<open>shs_consume\<close> says: the bytes it removes are a sequence of
  segments at the front of the window, one for each state byte handed over and in the
  same order, each segment the header-free bytes in front of a header followed by the
  confirmed frame or by the minimum frame of nine bytes; no other byte leaves the
  window, and what is left holds no header with nine bytes from its start. In
  particular the loop removes nothing when it hands no state byte over, and when the
  window holds no header it hands nothing over and keeps every byte for the next read.
\<close>

theorem C3_buffer_retention:
  assumes "shs_acc_ok a" and "rx \<noteq> []" and "length rx \<le> SHS_UART_BUF_SIZE"
  shows
   "shs_acc_ok (fst (shs_ld2410_rx rx a)) \<and>
    shs_pending (shs_acc_append rx a) =
      shs_pending a @ take (SHS_UART_ACC_BUF_SIZE - acc_len a) rx \<and>
    (acc_len a + length rx \<le> SHS_UART_ACC_BUF_SIZE \<longrightarrow>
       shs_pending (shs_acc_append rx a) = shs_pending a @ rx) \<and>
    (shs_pending (fst (shs_ld2410_rx rx a)), snd (shs_ld2410_rx rx a)) =
      shs_consume (shs_pending (shs_acc_append rx a)) \<and>
    (\<exists>segs. shs_pending (shs_acc_append rx a) =
              concat segs @ shs_pending (fst (shs_ld2410_rx rx a)) \<and>
            list_all2 shs_segment segs (snd (shs_ld2410_rx rx a))) \<and>
    length (shs_pending (fst (shs_ld2410_rx rx a))) <
      shs_first_hdr (shs_pending (fst (shs_ld2410_rx rx a))) + 9 \<and>
    (\<exists>d. shs_pending (fst (shs_ld2410_rx rx a)) = drop d (shs_pending (shs_acc_append rx a))) \<and>
    (snd (shs_ld2410_rx rx a) = [] \<longrightarrow>
       shs_pending (fst (shs_ld2410_rx rx a)) = shs_pending (shs_acc_append rx a)) \<and>
    (\<not> shs_has_hdr (shs_pending (shs_acc_append rx a)) \<longrightarrow>
       snd (shs_ld2410_rx rx a) = [] \<and>
       shs_pending (fst (shs_ld2410_rx rx a)) = shs_pending (shs_acc_append rx a))"
proof -
  let ?a1 = "shs_acc_append rx a"
  let ?r = "shs_ld2410_rx rx a"
  note p = shs_acc_append_props [OF assms(1), of rx]
  note s = shs_frame_loop_suffix [OF p(1)]
  have e: "?r = shs_frame_loop ?a1" by (rule shs_rx_nonempty [OF assms(2)])
  have full: "acc_len a + length rx \<le> SHS_UART_ACC_BUF_SIZE \<longrightarrow>
       shs_pending ?a1 = shs_pending a @ rx"
    using p(2) by simp
  have cs: "(shs_pending (fst ?r), snd ?r) = shs_consume (shs_pending ?a1)"
    unfolding e using shs_frame_loop_consume [OF p(1)] by (simp add: prod_eq_iff)
  then have fs: "fst (shs_consume (shs_pending ?a1)) = shs_pending (fst ?r)"
    and sn: "snd (shs_consume (shs_pending ?a1)) = snd ?r"
    by (simp_all add: prod_eq_iff)
  have sg: "\<exists>segs. shs_pending ?a1 = concat segs @ shs_pending (fst ?r) \<and>
                  list_all2 shs_segment segs (snd ?r)"
    using shs_consume_segments [of "shs_pending ?a1"] unfolding fs sn .
  have rs: "length (shs_pending (fst ?r)) < shs_first_hdr (shs_pending (fst ?r)) + 9"
    using shs_consume_rest [of "shs_pending ?a1"] unfolding fs by (rule shs_taken_0)
  have nh: "\<not> shs_has_hdr (shs_pending ?a1) \<longrightarrow>
       snd ?r = [] \<and> shs_pending (fst ?r) = shs_pending ?a1"
  proof (intro impI)
    assume "\<not> shs_has_hdr (shs_pending ?a1)"
    then have "\<not> shs_has_hdr (shs_pending a @ take (SHS_UART_ACC_BUF_SIZE - acc_len a) rx)"
      unfolding p(2) .
    then have "?r = (?a1, [])"
      by (rule shs_rx_no_hdr [OF assms(1) assms(2)])
    then show "snd ?r = [] \<and> shs_pending (fst ?r) = shs_pending ?a1"
      by simp
  qed
  from s have s1: "shs_acc_ok (fst ?r)"
    and s2: "\<exists>d. shs_pending (fst ?r) = drop d (shs_pending ?a1)"
    and s3: "snd ?r = [] \<longrightarrow> shs_pending (fst ?r) = shs_pending ?a1"
    unfolding e by simp_all
  from s1 p(2) full cs sg rs s2 s3 nh show ?thesis by (intro conjI)
qed

lemma shs_no_hdr_without_F4:
  "\<forall>x \<in> set xs. x \<noteq> 0xF4 \<Longrightarrow> \<not> shs_has_hdr xs"
  by (induction xs rule: shs_has_hdr.induct) auto

lemma shs_acc_init_pending: "shs_pending shs_acc_init = []"
  by (simp add: shs_pending_def shs_acc_init_def)

text \<open>
  Claim C3 as stated fails when the window is full. Two reads of 512 zero bytes fill
  the 1024 bytes of the array without a header in them; the byte \<^verbatim>\<open>0xAA\<close> of the third
  read finds \<^verbatim>\<open>free_space = 0\<close>, is not copied, and is gone: the window still holds
  the 1024 zero bytes and nothing was handed to the state machine.
\<close>

theorem C3_counterexample:
  "snd (shs_ld2410_rx_all [replicate 512 0, replicate 512 0, [0xAA]] shs_acc_init) = [] \<and>
   shs_pending (fst (shs_ld2410_rx_all [replicate 512 0, replicate 512 0, [0xAA]] shs_acc_init)) =
     replicate 1024 0"
proof -
  let ?z = "replicate 512 (0 :: byte)"
  let ?a1 = "shs_acc_append ?z shs_acc_init"
  let ?a2 = "shs_acc_append ?z ?a1"
  let ?a3 = "shs_acc_append [0xAA] ?a2"
  have z: "?z \<noteq> []" by simp
  note p1 = shs_acc_append_props [OF shs_acc_init_ok(1), of ?z]
  have pe1: "shs_pending ?a1 = ?z" and l1: "acc_len ?a1 = 512"
    using p1(2) p1(3) by (simp_all add: shs_acc_init_pending shs_acc_init_ok(2) shs_sizes)
  have n1: "\<not> shs_has_hdr (shs_pending shs_acc_init @
              take (SHS_UART_ACC_BUF_SIZE - acc_len shs_acc_init) ?z)"
    by (rule shs_no_hdr_without_F4) (auto simp: shs_acc_init_pending dest: in_set_takeD)
  have r1: "shs_ld2410_rx ?z shs_acc_init = (?a1, [])"
    by (rule shs_rx_no_hdr [OF shs_acc_init_ok(1) z n1])
  note p2 = shs_acc_append_props [OF p1(1), of ?z]
  have pe2: "shs_pending ?a2 = ?z @ ?z" and l2: "acc_len ?a2 = 1024"
    using p2(2) p2(3) by (simp_all add: pe1 l1 shs_sizes)
  have n2: "\<not> shs_has_hdr (shs_pending ?a1 @ take (SHS_UART_ACC_BUF_SIZE - acc_len ?a1) ?z)"
    by (rule shs_no_hdr_without_F4) (auto simp: pe1 dest: in_set_takeD)
  have r2: "shs_ld2410_rx ?z ?a1 = (?a2, [])"
    by (rule shs_rx_no_hdr [OF p1(1) z n2])
  note p3 = shs_acc_append_props [OF p2(1), of "[0xAA]"]
  have pe3: "shs_pending ?a3 = ?z @ ?z"
    using p3(2) by (simp add: pe2 l2 shs_sizes)
  have n3: "\<not> shs_has_hdr (shs_pending ?a2 @ take (SHS_UART_ACC_BUF_SIZE - acc_len ?a2) [0xAA])"
    by (rule shs_no_hdr_without_F4) (simp add: pe2 l2 shs_sizes)
  have r3: "shs_ld2410_rx [0xAA] ?a2 = (?a3, [])"
    by (rule shs_rx_no_hdr [OF p2(1) _ n3]) simp
  have "shs_ld2410_rx_all [?z, ?z, [0xAA]] shs_acc_init = (?a3, [])"
    by (simp add: Let_def r1 r2 r3)
  moreover have "?z @ ?z = replicate 1024 0"
    by (simp flip: replicate_add)
  ultimately show ?thesis using pe3 by simp
qed

text \<open>
  One read of two stray bytes, a whole basic report and the first five bytes of the next
  report, into the empty window: the state byte of the report is handed over, the two
  stray bytes leave the window together with the report, and the five bytes of the next
  report stay for the next read. One read of three bytes without a header: nothing is
  handed over and the three bytes stay.
\<close>

theorem C3_buffer_retention_witness:
  "snd (shs_ld2410_rx
          (0x11 # 0x22 # shs_rx_frame shs_basic_payload @ [0xF4, 0xF3, 0xF2, 0xF1, 0x0D])
          shs_acc_init) = [0x01] \<and>
   shs_pending (fst (shs_ld2410_rx
          (0x11 # 0x22 # shs_rx_frame shs_basic_payload @ [0xF4, 0xF3, 0xF2, 0xF1, 0x0D])
          shs_acc_init)) = [0xF4, 0xF3, 0xF2, 0xF1, 0x0D] \<and>
   snd (shs_ld2410_rx [0x11, 0x22, 0x33] shs_acc_init) = [] \<and>
   shs_pending (fst (shs_ld2410_rx [0x11, 0x22, 0x33] shs_acc_init)) = [0x11, 0x22, 0x33]"
proof -
  let ?rx = "0x11 # 0x22 # shs_rx_frame shs_basic_payload @ [0xF4, 0xF3, 0xF2, 0xF1, 0x0D :: byte]"
  let ?r = "shs_ld2410_rx ?rx shs_acc_init"
  have ne: "?rx \<noteq> []" by simp
  have le: "length ?rx \<le> SHS_UART_BUF_SIZE"
    by (simp add: shs_frame_bytes shs_basic_payload_def shs_sizes)
  note t = C3_buffer_retention [OF shs_acc_init_ok(1) ne le]
  from t have pe: "shs_pending (shs_acc_append ?rx shs_acc_init) =
       shs_pending shs_acc_init @ take (SHS_UART_ACC_BUF_SIZE - acc_len shs_acc_init) ?rx"
    by (rule conjunct1 [OF conjunct2])
  have tk: "take (SHS_UART_ACC_BUF_SIZE - acc_len shs_acc_init) ?rx = ?rx"
    using le by (simp add: shs_acc_init_ok(2) shs_sizes)
  have pe': "shs_pending (shs_acc_append ?rx shs_acc_init) = ?rx"
    unfolding pe tk by (simp add: shs_acc_init_pending)
  from t have "(shs_pending (fst ?r), snd ?r) =
       shs_consume (shs_pending (shs_acc_append ?rx shs_acc_init))"
    by (rule conjunct1 [OF conjunct2 [OF conjunct2 [OF conjunct2]]])
  then have "(shs_pending (fst ?r), snd ?r) = ([0xF4, 0xF3, 0xF2, 0xF1, 0x0D], [0x01])"
    unfolding pe' shs_noise_frame_consume .
  then have frame: "snd ?r = [0x01] \<and> shs_pending (fst ?r) = [0xF4, 0xF3, 0xF2, 0xF1, 0x0D]"
    by simp
  let ?ry = "[0x11, 0x22, 0x33 :: byte]"
  have ney: "?ry \<noteq> []" by simp
  have ley: "length ?ry \<le> SHS_UART_BUF_SIZE" by (simp add: shs_sizes)
  note u = C3_buffer_retention [OF shs_acc_init_ok(1) ney ley]
  from u have qe: "shs_pending (shs_acc_append ?ry shs_acc_init) =
       shs_pending shs_acc_init @ take (SHS_UART_ACC_BUF_SIZE - acc_len shs_acc_init) ?ry"
    by (rule conjunct1 [OF conjunct2])
  then have qe': "shs_pending (shs_acc_append ?ry shs_acc_init) = ?ry"
    by (simp add: shs_acc_init_pending shs_acc_init_ok(2) shs_sizes)
  have nh: "\<not> shs_has_hdr (shs_pending (shs_acc_append ?ry shs_acc_init))"
    unfolding qe' by simp
  from u have "\<not> shs_has_hdr (shs_pending (shs_acc_append ?ry shs_acc_init)) \<longrightarrow>
       snd (shs_ld2410_rx ?ry shs_acc_init) = [] \<and>
       shs_pending (fst (shs_ld2410_rx ?ry shs_acc_init)) =
       shs_pending (shs_acc_append ?ry shs_acc_init)"
    by (rule conjunct2 [OF conjunct2 [OF conjunct2 [OF conjunct2
          [OF conjunct2 [OF conjunct2 [OF conjunct2 [OF conjunct2]]]]]]])
  with nh have "snd (shs_ld2410_rx ?ry shs_acc_init) = [] \<and>
       shs_pending (fst (shs_ld2410_rx ?ry shs_acc_init)) =
       shs_pending (shs_acc_append ?ry shs_acc_init)"
    by (rule rev_mp)
  then have stray: "snd (shs_ld2410_rx ?ry shs_acc_init) = [] \<and>
       shs_pending (fst (shs_ld2410_rx ?ry shs_acc_init)) = ?ry"
    unfolding qe' .
  from frame stray show ?thesis by (simp only: conj_assoc simp_thms)
qed

text \<open>
  Claim C5 as stated fails on a valid frame whose payload spells the receive header
  after the state byte. Fed whole, the 21-byte frame hands over the state byte
  \<^verbatim>\<open>0x01\<close>. Split after ten bytes, the first read hands over \<^verbatim>\<open>0x01\<close> and drops nine
  bytes; the second read finds the inner header and hands over \<^verbatim>\<open>0xF8\<close>, the first
  trailer byte, as a second state byte.
\<close>

theorem C5_counterexample:
  "snd (shs_ld2410_rx_all [shs_rx_frame shs_inner_hdr_payload] shs_acc_init) = [0x01] \<and>
   snd (shs_ld2410_rx_all [take 10 (shs_rx_frame shs_inner_hdr_payload),
                           drop 10 (shs_rx_frame shs_inner_hdr_payload)] shs_acc_init) =
     [0x01, 0xF8]"
  using shs_inner_hdr_whole shs_inner_hdr_split by (rule conjI)


end
